theory Spec2Isabelle
  imports Main "HOL-Library.Word"
begin

unbundle bit_operations_syntax

section \<open>Ripe.h: constants and inline size helpers\<close>

text \<open>
  \<^verbatim>\<open>std::size_t\<close> is an unsigned integer whose width the header does not fix; it is
  modelled as \<open>'a word\<close>, so every operation wraps modulo \<open>2 ^ LENGTH('a)\<close>.
  \<^verbatim>\<open>unsigned int\<close> is a second word type \<open>'b word\<close>.  The usual 64-bit data models have
  \<open>'a = 64\<close> and \<open>'b = 32\<close>.
\<close>

type_synonym byte = "8 word"

text \<open>
  Modelled from the spec: the value of \<^verbatim>\<open>Ripe::AES_BSIZE\<close>.  Ripe.h only declares the
  constant (\<^verbatim>\<open>static const int AES_BSIZE;\<close>); the spec gives the AES block size as 16 bytes.
\<close>

definition AES_BSIZE :: nat where
  "AES_BSIZE = 16"

text \<open>
  \<^verbatim>\<open>return (plainDataSize / AES_BSIZE + 1) * AES_BSIZE;\<close>
  The \<^verbatim>\<open>int\<close> constant is converted to \<^verbatim>\<open>std::size_t\<close> by the usual arithmetic conversions.
\<close>

definition expectedAESCipherLength :: "'a::len word \<Rightarrow> 'a word" where
  "expectedAESCipherLength plainDataSize =
     (plainDataSize div of_nat AES_BSIZE + 1) * of_nat AES_BSIZE"

text \<open>
  \<^verbatim>\<open>return ((keySize - 384) / 8) + 7;\<close>
  The arithmetic is done in \<^verbatim>\<open>std::size_t\<close>; the \<^verbatim>\<open>return\<close> converts the result to the
  declared result type \<^verbatim>\<open>unsigned int\<close>.
\<close>

definition maxRSABlockSize :: "'a::len word \<Rightarrow> 'b::len word" where
  "maxRSABlockSize keySize = ucast (((keySize - 384) div 8) + 7)"

text \<open>
  \<^verbatim>\<open>return ((4 * n / 3) + 3) & ~0x03;\<close>
  \<^verbatim>\<open>~0x03\<close> is the \<^verbatim>\<open>int\<close> value \<open>-4\<close>, converted to \<^verbatim>\<open>std::size_t\<close>: all bits set but the
  lowest two.
\<close>

definition expectedBase64Length :: "'a::len word \<Rightarrow> 'a word" where
  "expectedBase64Length n = ((4 * n div 3) + 3) AND (NOT 3)"

section \<open>RSA block splitting\<close>

text \<open>
  Modelled from the spec: the chunking helper of \<^verbatim>\<open>encryptRSA\<close>, whose body is not part of
  Ripe.h.  The spec: if \<open>len(data) > maxRSABlockSize(keyBits)\<close> the helper splits \<open>data\<close> into
  an ordered sequence of blocks, each of at most \<open>maxRSABlockSize(keyBits)\<close> bytes; shorter
  data is a single block.  \<open>blockSize\<close> is the value of \<open>maxRSABlockSize(keyBits)\<close>.
\<close>

function splitRSABlocks :: "nat \<Rightarrow> byte list \<Rightarrow> byte list list" where
  "splitRSABlocks blockSize data =
     (if blockSize = 0 \<or> length data \<le> blockSize then [data]
      else take blockSize data # splitRSABlocks blockSize (drop blockSize data))"
  by pat_completeness auto
termination
  by (relation "measure (\<lambda>(blockSize, data). length data)") auto

section \<open>Errors\<close>

text \<open>The failure kinds of the core, as the spec's error taxonomy lists them.\<close>

datatype error =
    InvalidKeySize
  | InvalidIVSize
  | InvalidEncoding
  | DecryptionError
  | KeyGenerationError
  | InvalidKey
  | WrongPassphrase
  | IOError
  | ParseError

section \<open>Codec: base64 and hexadecimal text\<close>

text \<open>
  Binary strings (\<^verbatim>\<open>std::string\<close> holding raw bytes) are \<open>byte list\<close>; text is \<open>string\<close>.
\<close>

text \<open>
  Modelled from the spec: \<^verbatim>\<open>Ripe::base64Encode\<close>, declared in Ripe.h without a body.  The
  spec calls it the standard reversible conversion with the standard alphabet: three bytes
  become four characters, and a last group of one or two bytes is padded with \<open>=\<close>.
\<close>

definition base64Alphabet :: string where
  "base64Alphabet = ''ABCDEFGHIJKLMNOPQRSTUVWXYZabcdefghijklmnopqrstuvwxyz0123456789+/''"

definition base64Char :: "byte \<Rightarrow> char" where
  "base64Char v = base64Alphabet ! unat (v AND 63)"

fun base64Encode :: "byte list \<Rightarrow> string" where
  "base64Encode [] = []"
| "base64Encode [a] =
     [base64Char (drop_bit 2 a), base64Char (push_bit 4 (a AND 3)), CHR ''='', CHR ''='']"
| "base64Encode [a, b] =
     [base64Char (drop_bit 2 a), base64Char (push_bit 4 (a AND 3) OR drop_bit 4 b),
      base64Char (push_bit 2 (b AND 15)), CHR ''='']"
| "base64Encode (a # b # c # rest) =
     [base64Char (drop_bit 2 a), base64Char (push_bit 4 (a AND 3) OR drop_bit 4 b),
      base64Char (push_bit 2 (b AND 15) OR drop_bit 6 c), base64Char (c AND 63)]
     @ base64Encode rest"

text \<open>
  Modelled from the spec: \<^verbatim>\<open>Ripe::stringToHex\<close> and \<^verbatim>\<open>Ripe::hexToString\<close>, declared in
  Ripe.h without a body.  The spec: two hex characters per byte, lowercase when encoding;
  decoding fails with \<open>InvalidEncoding\<close> on odd length or on a character that is not a hex
  digit.
\<close>

definition hexChars :: string where
  "hexChars = ''0123456789abcdef''"

definition hexOfByte :: "byte \<Rightarrow> string" where
  "hexOfByte b = [hexChars ! (unat b div 16), hexChars ! (unat b mod 16)]"

definition stringToHex :: "byte list \<Rightarrow> string" where
  "stringToHex raw = concat (map hexOfByte raw)"

definition hexDigit :: "char \<Rightarrow> nat option" where
  "hexDigit c =
     (let n = of_char c :: nat in
      if 48 \<le> n \<and> n \<le> 57 then Some (n - 48)
      else if 97 \<le> n \<and> n \<le> 102 then Some (n - 87)
      else if 65 \<le> n \<and> n \<le> 70 then Some (n - 55)
      else None)"

fun hexToString :: "string \<Rightarrow> error + byte list" where
  "hexToString [] = Inr []"
| "hexToString [c] = Inl InvalidEncoding"
| "hexToString (h # l # rest) =
     (case hexDigit h of
        None \<Rightarrow> Inl InvalidEncoding
      | Some x \<Rightarrow>
          (case hexDigit l of
             None \<Rightarrow> Inl InvalidEncoding
           | Some y \<Rightarrow>
               (case hexToString rest of
                  Inl e \<Rightarrow> Inl e
                | Inr bytes \<Rightarrow> Inr (of_nat (16 * x + y) # bytes))))"

text \<open>
  Modelled from the spec: \<^verbatim>\<open>Ripe::base64Decode\<close>, declared in Ripe.h without a body.  The
  spec: the reverse of \<open>base64Encode\<close>; fails with \<open>InvalidEncoding\<close> on malformed input (a
  character outside the alphabet, bad padding, a length that is not a multiple of four).
\<close>

definition base64Index :: "char \<Rightarrow> nat option" where
  "base64Index c =
     (let n = of_char c :: nat in
      if 65 \<le> n \<and> n \<le> 90 then Some (n - 65)
      else if 97 \<le> n \<and> n \<le> 122 then Some (n - 71)
      else if 48 \<le> n \<and> n \<le> 57 then Some (n + 4)
      else if n = 43 then Some 62
      else if n = 47 then Some 63
      else None)"

text \<open>The bytes of a group of four characters, the last \<open>pad\<close> of which are padding.\<close>

definition base64Group :: "char \<Rightarrow> char \<Rightarrow> char \<Rightarrow> char \<Rightarrow> nat \<Rightarrow> error + byte list" where
  "base64Group c0 c1 c2 c3 pad =
     (case base64Index c0 of None \<Rightarrow> Inl InvalidEncoding | Some n0 \<Rightarrow>
      case base64Index c1 of None \<Rightarrow> Inl InvalidEncoding | Some n1 \<Rightarrow>
        let s0 = (of_nat n0 :: byte); s1 = (of_nat n1 :: byte);
            b0 = push_bit 2 s0 OR drop_bit 4 s1 in
        if pad = 2 then Inr [b0]
        else
          case base64Index c2 of None \<Rightarrow> Inl InvalidEncoding | Some n2 \<Rightarrow>
            let s2 = (of_nat n2 :: byte); b1 = push_bit 4 s1 OR drop_bit 2 s2 in
            if pad = 1 then Inr [b0, b1]
            else
              case base64Index c3 of None \<Rightarrow> Inl InvalidEncoding | Some n3 \<Rightarrow>
                Inr [b0, b1, push_bit 6 s2 OR of_nat n3])"

fun base64Decode :: "string \<Rightarrow> error + byte list" where
  "base64Decode [] = Inr []"
| "base64Decode (c0 # c1 # c2 # c3 # rest) =
     (if rest = [] \<and> c3 = CHR ''='' then
        base64Group c0 c1 c2 c3 (if c2 = CHR ''='' then 2 else 1)
      else
        case base64Group c0 c1 c2 c3 0 of
          Inl e \<Rightarrow> Inl e
        | Inr bytes \<Rightarrow>
            (case base64Decode rest of
               Inl e \<Rightarrow> Inl e
             | Inr others \<Rightarrow> Inr (bytes @ others)))"
| "base64Decode _ = Inl InvalidEncoding"

text \<open>Decimal text of a size, as a stream prints it, and its parser.\<close>

definition decimalDigits :: string where
  "decimalDigits = ''0123456789''"

definition digitChar :: "nat \<Rightarrow> char" where
  "digitChar d = decimalDigits ! d"

function decimal :: "nat \<Rightarrow> string" where
  "decimal n = (if n < 10 then [digitChar n] else decimal (n div 10) @ [digitChar (n mod 10)])"
  by pat_completeness auto
termination
  by (relation "measure id") auto

definition digitValue :: "char \<Rightarrow> nat option" where
  "digitValue c =
     (let n = of_char c :: nat in if 48 \<le> n \<and> n \<le> 57 then Some (n - 48) else None)"

fun parseDigits :: "nat \<Rightarrow> string \<Rightarrow> nat option" where
  "parseDigits acc [] = Some acc"
| "parseDigits acc (c # cs) =
     (case digitValue c of None \<Rightarrow> None | Some d \<Rightarrow> parseDigits (10 * acc + d) cs)"

definition parseDecimal :: "string \<Rightarrow> nat option" where
  "parseDecimal s = (if s = [] then None else parseDigits 0 s)"

section \<open>RSA encryption in blocks\<close>






section \<open>AES block cipher\<close>

text \<open>
  Modelled from the spec: the block cipher behind \<^verbatim>\<open>Ripe::encryptAES\<close> and
  \<^verbatim>\<open>Ripe::decryptAES\<close>.  Ripe.h declares both without a body; the spec names the cipher
  (AES-128/192/256 by key length, 16-byte blocks), so the model is the AES cipher and its
  inverse cipher: byte substitution, row shift, column mixing over GF(2^8) and round-key
  addition, with the AES key expansion.
  The state is four columns of four bytes.
\<close>

type_synonym aes_word = "byte \<times> byte \<times> byte \<times> byte"
type_synonym aes_state = "aes_word \<times> aes_word \<times> aes_word \<times> aes_word"

definition SBOX :: "byte list" where
  "SBOX = [
      0x63, 0x7c, 0x77, 0x7b, 0xf2, 0x6b, 0x6f, 0xc5, 0x30, 0x01, 0x67, 0x2b, 0xfe, 0xd7, 0xab, 0x76,
      0xca, 0x82, 0xc9, 0x7d, 0xfa, 0x59, 0x47, 0xf0, 0xad, 0xd4, 0xa2, 0xaf, 0x9c, 0xa4, 0x72, 0xc0,
      0xb7, 0xfd, 0x93, 0x26, 0x36, 0x3f, 0xf7, 0xcc, 0x34, 0xa5, 0xe5, 0xf1, 0x71, 0xd8, 0x31, 0x15,
      0x04, 0xc7, 0x23, 0xc3, 0x18, 0x96, 0x05, 0x9a, 0x07, 0x12, 0x80, 0xe2, 0xeb, 0x27, 0xb2, 0x75,
      0x09, 0x83, 0x2c, 0x1a, 0x1b, 0x6e, 0x5a, 0xa0, 0x52, 0x3b, 0xd6, 0xb3, 0x29, 0xe3, 0x2f, 0x84,
      0x53, 0xd1, 0x00, 0xed, 0x20, 0xfc, 0xb1, 0x5b, 0x6a, 0xcb, 0xbe, 0x39, 0x4a, 0x4c, 0x58, 0xcf,
      0xd0, 0xef, 0xaa, 0xfb, 0x43, 0x4d, 0x33, 0x85, 0x45, 0xf9, 0x02, 0x7f, 0x50, 0x3c, 0x9f, 0xa8,
      0x51, 0xa3, 0x40, 0x8f, 0x92, 0x9d, 0x38, 0xf5, 0xbc, 0xb6, 0xda, 0x21, 0x10, 0xff, 0xf3, 0xd2,
      0xcd, 0x0c, 0x13, 0xec, 0x5f, 0x97, 0x44, 0x17, 0xc4, 0xa7, 0x7e, 0x3d, 0x64, 0x5d, 0x19, 0x73,
      0x60, 0x81, 0x4f, 0xdc, 0x22, 0x2a, 0x90, 0x88, 0x46, 0xee, 0xb8, 0x14, 0xde, 0x5e, 0x0b, 0xdb,
      0xe0, 0x32, 0x3a, 0x0a, 0x49, 0x06, 0x24, 0x5c, 0xc2, 0xd3, 0xac, 0x62, 0x91, 0x95, 0xe4, 0x79,
      0xe7, 0xc8, 0x37, 0x6d, 0x8d, 0xd5, 0x4e, 0xa9, 0x6c, 0x56, 0xf4, 0xea, 0x65, 0x7a, 0xae, 0x08,
      0xba, 0x78, 0x25, 0x2e, 0x1c, 0xa6, 0xb4, 0xc6, 0xe8, 0xdd, 0x74, 0x1f, 0x4b, 0xbd, 0x8b, 0x8a,
      0x70, 0x3e, 0xb5, 0x66, 0x48, 0x03, 0xf6, 0x0e, 0x61, 0x35, 0x57, 0xb9, 0x86, 0xc1, 0x1d, 0x9e,
      0xe1, 0xf8, 0x98, 0x11, 0x69, 0xd9, 0x8e, 0x94, 0x9b, 0x1e, 0x87, 0xe9, 0xce, 0x55, 0x28, 0xdf,
      0x8c, 0xa1, 0x89, 0x0d, 0xbf, 0xe6, 0x42, 0x68, 0x41, 0x99, 0x2d, 0x0f, 0xb0, 0x54, 0xbb, 0x16]"

definition INV_SBOX :: "byte list" where
  "INV_SBOX = [
      0x52, 0x09, 0x6a, 0xd5, 0x30, 0x36, 0xa5, 0x38, 0xbf, 0x40, 0xa3, 0x9e, 0x81, 0xf3, 0xd7, 0xfb,
      0x7c, 0xe3, 0x39, 0x82, 0x9b, 0x2f, 0xff, 0x87, 0x34, 0x8e, 0x43, 0x44, 0xc4, 0xde, 0xe9, 0xcb,
      0x54, 0x7b, 0x94, 0x32, 0xa6, 0xc2, 0x23, 0x3d, 0xee, 0x4c, 0x95, 0x0b, 0x42, 0xfa, 0xc3, 0x4e,
      0x08, 0x2e, 0xa1, 0x66, 0x28, 0xd9, 0x24, 0xb2, 0x76, 0x5b, 0xa2, 0x49, 0x6d, 0x8b, 0xd1, 0x25,
      0x72, 0xf8, 0xf6, 0x64, 0x86, 0x68, 0x98, 0x16, 0xd4, 0xa4, 0x5c, 0xcc, 0x5d, 0x65, 0xb6, 0x92,
      0x6c, 0x70, 0x48, 0x50, 0xfd, 0xed, 0xb9, 0xda, 0x5e, 0x15, 0x46, 0x57, 0xa7, 0x8d, 0x9d, 0x84,
      0x90, 0xd8, 0xab, 0x00, 0x8c, 0xbc, 0xd3, 0x0a, 0xf7, 0xe4, 0x58, 0x05, 0xb8, 0xb3, 0x45, 0x06,
      0xd0, 0x2c, 0x1e, 0x8f, 0xca, 0x3f, 0x0f, 0x02, 0xc1, 0xaf, 0xbd, 0x03, 0x01, 0x13, 0x8a, 0x6b,
      0x3a, 0x91, 0x11, 0x41, 0x4f, 0x67, 0xdc, 0xea, 0x97, 0xf2, 0xcf, 0xce, 0xf0, 0xb4, 0xe6, 0x73,
      0x96, 0xac, 0x74, 0x22, 0xe7, 0xad, 0x35, 0x85, 0xe2, 0xf9, 0x37, 0xe8, 0x1c, 0x75, 0xdf, 0x6e,
      0x47, 0xf1, 0x1a, 0x71, 0x1d, 0x29, 0xc5, 0x89, 0x6f, 0xb7, 0x62, 0x0e, 0xaa, 0x18, 0xbe, 0x1b,
      0xfc, 0x56, 0x3e, 0x4b, 0xc6, 0xd2, 0x79, 0x20, 0x9a, 0xdb, 0xc0, 0xfe, 0x78, 0xcd, 0x5a, 0xf4,
      0x1f, 0xdd, 0xa8, 0x33, 0x88, 0x07, 0xc7, 0x31, 0xb1, 0x12, 0x10, 0x59, 0x27, 0x80, 0xec, 0x5f,
      0x60, 0x51, 0x7f, 0xa9, 0x19, 0xb5, 0x4a, 0x0d, 0x2d, 0xe5, 0x7a, 0x9f, 0x93, 0xc9, 0x9c, 0xef,
      0xa0, 0xe0, 0x3b, 0x4d, 0xae, 0x2a, 0xf5, 0xb0, 0xc8, 0xeb, 0xbb, 0x3c, 0x83, 0x53, 0x99, 0x61,
      0x17, 0x2b, 0x04, 0x7e, 0xba, 0x77, 0xd6, 0x26, 0xe1, 0x69, 0x14, 0x63, 0x55, 0x21, 0x0c, 0x7d]"

definition subByte :: "byte \<Rightarrow> byte" where
  "subByte b = SBOX ! unat b"

definition invSubByte :: "byte \<Rightarrow> byte" where
  "invSubByte b = INV_SBOX ! unat b"

text \<open>Multiplication by \<open>x\<close> in GF(2^8) modulo \<open>x^8 + x^4 + x^3 + x + 1\<close>.\<close>

definition xtime :: "byte \<Rightarrow> byte" where
  "xtime b = push_bit 1 b XOR (if bit b 7 then 0x1b else 0)"

definition mul3 :: "byte \<Rightarrow> byte" where
  "mul3 b = xtime b XOR b"

definition mul9 :: "byte \<Rightarrow> byte" where
  "mul9 b = xtime (xtime (xtime b)) XOR b"

definition mul11 :: "byte \<Rightarrow> byte" where
  "mul11 b = xtime (xtime (xtime b)) XOR xtime b XOR b"

definition mul13 :: "byte \<Rightarrow> byte" where
  "mul13 b = xtime (xtime (xtime b)) XOR xtime (xtime b) XOR b"

definition mul14 :: "byte \<Rightarrow> byte" where
  "mul14 b = xtime (xtime (xtime b)) XOR xtime (xtime b) XOR xtime b"

fun xorWord :: "aes_word \<Rightarrow> aes_word \<Rightarrow> aes_word" where
  "xorWord (a, b, c, d) (e, f, g, h) = (a XOR e, b XOR f, c XOR g, d XOR h)"

fun subWord :: "aes_word \<Rightarrow> aes_word" where
  "subWord (a, b, c, d) = (subByte a, subByte b, subByte c, subByte d)"

fun invSubWord :: "aes_word \<Rightarrow> aes_word" where
  "invSubWord (a, b, c, d) = (invSubByte a, invSubByte b, invSubByte c, invSubByte d)"

fun rotWord :: "aes_word \<Rightarrow> aes_word" where
  "rotWord (a, b, c, d) = (b, c, d, a)"

fun mixColumn :: "aes_word \<Rightarrow> aes_word" where
  "mixColumn (a, b, c, d) =
     (xtime a XOR mul3 b XOR c XOR d,
      a XOR xtime b XOR mul3 c XOR d,
      a XOR b XOR xtime c XOR mul3 d,
      mul3 a XOR b XOR c XOR xtime d)"

fun invMixColumn :: "aes_word \<Rightarrow> aes_word" where
  "invMixColumn (a, b, c, d) =
     (mul14 a XOR mul11 b XOR mul13 c XOR mul9 d,
      mul9 a XOR mul14 b XOR mul11 c XOR mul13 d,
      mul13 a XOR mul9 b XOR mul14 c XOR mul11 d,
      mul11 a XOR mul13 b XOR mul9 c XOR mul14 d)"

fun subBytes :: "aes_state \<Rightarrow> aes_state" where
  "subBytes (c0, c1, c2, c3) = (subWord c0, subWord c1, subWord c2, subWord c3)"

fun invSubBytes :: "aes_state \<Rightarrow> aes_state" where
  "invSubBytes (c0, c1, c2, c3) = (invSubWord c0, invSubWord c1, invSubWord c2, invSubWord c3)"

text \<open>Row \<open>r\<close> of the state is rotated left by \<open>r\<close> columns; the inverse rotates right.\<close>

fun shiftRows :: "aes_state \<Rightarrow> aes_state" where
  "shiftRows ((a0, a1, a2, a3), (b0, b1, b2, b3), (c0, c1, c2, c3), (d0, d1, d2, d3)) =
     ((a0, b1, c2, d3), (b0, c1, d2, a3), (c0, d1, a2, b3), (d0, a1, b2, c3))"

fun invShiftRows :: "aes_state \<Rightarrow> aes_state" where
  "invShiftRows ((a0, a1, a2, a3), (b0, b1, b2, b3), (c0, c1, c2, c3), (d0, d1, d2, d3)) =
     ((a0, d1, c2, b3), (b0, a1, d2, c3), (c0, b1, a2, d3), (d0, c1, b2, a3))"

fun mixColumns :: "aes_state \<Rightarrow> aes_state" where
  "mixColumns (c0, c1, c2, c3) = (mixColumn c0, mixColumn c1, mixColumn c2, mixColumn c3)"

fun invMixColumns :: "aes_state \<Rightarrow> aes_state" where
  "invMixColumns (c0, c1, c2, c3) =
     (invMixColumn c0, invMixColumn c1, invMixColumn c2, invMixColumn c3)"

fun addRoundKey :: "aes_state \<Rightarrow> aes_state \<Rightarrow> aes_state" where
  "addRoundKey (k0, k1, k2, k3) (c0, c1, c2, c3) =
     (xorWord c0 k0, xorWord c1 k1, xorWord c2 k2, xorWord c3 k3)"

subsection \<open>Key expansion\<close>

fun wordsOf :: "byte list \<Rightarrow> aes_word list" where
  "wordsOf (a # b # c # d # rest) = (a, b, c, d) # wordsOf rest"
| "wordsOf _ = []"

definition rcon :: "nat \<Rightarrow> aes_word" where
  "rcon j = ((xtime ^^ (j - 1)) 1, 0, 0, 0)"

text \<open>
  The word \<open>w[i]\<close> for \<open>i = length w\<close>, from the \<open>Nk\<close> words before it.  The expansion starts
  from the \<open>Nk \<ge> 4\<close> words of the key, so both reads are in range.
\<close>

definition nextWord :: "nat \<Rightarrow> aes_word list \<Rightarrow> aes_word" where
  "nextWord Nk w =
     (let i = length w;
          temp = w ! (i - 1);
          t = (if i mod Nk = 0 then xorWord (subWord (rotWord temp)) (rcon (i div Nk))
               else if 6 < Nk \<and> i mod Nk = 4 then subWord temp
               else temp)
      in xorWord (w ! (i - Nk)) t)"

primrec expandWords :: "nat \<Rightarrow> nat \<Rightarrow> aes_word list \<Rightarrow> aes_word list" where
  "expandWords Nk 0 w = w"
| "expandWords Nk (Suc n) w = expandWords Nk n (w @ [nextWord Nk w])"

fun group4 :: "aes_word list \<Rightarrow> aes_state list" where
  "group4 (a # b # c # d # rest) = (a, b, c, d) # group4 rest"
| "group4 _ = []"

text \<open>
  \<open>Nk = length key div 4\<close> key words, \<open>Nr = Nk + 6\<close> rounds, \<open>4 * (Nr + 1)\<close> words in all,
  grouped into \<open>Nr + 1\<close> round keys.
\<close>

definition roundKeys :: "byte list \<Rightarrow> aes_state list" where
  "roundKeys key =
     (let Nk = length key div 4; Nr = Nk + 6
      in group4 (expandWords Nk (4 * (Nr + 1) - Nk) (wordsOf key)))"

subsection \<open>Cipher and inverse cipher\<close>

definition aesRound :: "aes_state \<Rightarrow> aes_state \<Rightarrow> aes_state" where
  "aesRound k s = addRoundKey k (mixColumns (shiftRows (subBytes s)))"

definition aesFinalRound :: "aes_state \<Rightarrow> aes_state \<Rightarrow> aes_state" where
  "aesFinalRound k s = addRoundKey k (shiftRows (subBytes s))"

definition aesInvRound :: "aes_state \<Rightarrow> aes_state \<Rightarrow> aes_state" where
  "aesInvRound k s = invSubBytes (invShiftRows (invMixColumns (addRoundKey k s)))"

definition aesInvFinalRound :: "aes_state \<Rightarrow> aes_state \<Rightarrow> aes_state" where
  "aesInvFinalRound k s = invSubBytes (invShiftRows (addRoundKey k s))"

fun aesRounds :: "aes_state list \<Rightarrow> aes_state \<Rightarrow> aes_state" where
  "aesRounds [] s = s"
| "aesRounds [k] s = aesFinalRound k s"
| "aesRounds (k # ks) s = aesRounds ks (aesRound k s)"

fun aesInvRounds :: "aes_state list \<Rightarrow> aes_state \<Rightarrow> aes_state" where
  "aesInvRounds [] s = s"
| "aesInvRounds [k] s = aesInvFinalRound k s"
| "aesInvRounds (k # ks) s = aesInvRound k (aesInvRounds ks s)"

fun aesCipher :: "aes_state list \<Rightarrow> aes_state \<Rightarrow> aes_state" where
  "aesCipher [] s = s"
| "aesCipher (k0 # ks) s = aesRounds ks (addRoundKey k0 s)"

fun aesInvCipher :: "aes_state list \<Rightarrow> aes_state \<Rightarrow> aes_state" where
  "aesInvCipher [] s = s"
| "aesInvCipher (k0 # ks) s = addRoundKey k0 (aesInvRounds ks s)"

text \<open>A 16-byte block fills the state column by column.\<close>

definition toState :: "byte list \<Rightarrow> aes_state" where
  "toState block =
     (case wordsOf block of
        [c0, c1, c2, c3] \<Rightarrow> (c0, c1, c2, c3)
      | _ \<Rightarrow> ((0, 0, 0, 0), (0, 0, 0, 0), (0, 0, 0, 0), (0, 0, 0, 0)))"

fun fromWord :: "aes_word \<Rightarrow> byte list" where
  "fromWord (a, b, c, d) = [a, b, c, d]"

fun fromState :: "aes_state \<Rightarrow> byte list" where
  "fromState (c0, c1, c2, c3) = fromWord c0 @ fromWord c1 @ fromWord c2 @ fromWord c3"

definition encryptBlock :: "aes_state list \<Rightarrow> byte list \<Rightarrow> byte list" where
  "encryptBlock rk block = fromState (aesCipher rk (toState block))"

definition decryptBlock :: "aes_state list \<Rightarrow> byte list \<Rightarrow> byte list" where
  "decryptBlock rk block = fromState (aesInvCipher rk (toState block))"

section \<open>AES in CBC mode: encryptAES and decryptAES\<close>

subsection \<open>C strings\<close>

text \<open>
  \<^verbatim>\<open>encryptAES(const char* data, const byte* key, std::size_t keySize, std::vector<byte>& iv)\<close>
  (Ripe.h:82) takes its plaintext as a \<^verbatim>\<open>const char*\<close> with no length argument, so the
  plaintext is the bytes before the first zero byte.  The model's \<open>data\<close> argument lists the
  bytes at the pointer; \<open>cString\<close> is what can be read through it.
  \<^verbatim>\<open>std::string::c_str()\<close> yields the contents followed by a terminating zero byte.
\<close>

definition cString :: "byte list \<Rightarrow> byte list" where
  "cString mem = takeWhile (\<lambda>b. b \<noteq> 0) mem"

definition c_str :: "byte list \<Rightarrow> byte list" where
  "c_str s = s @ [0]"

subsection \<open>Padding and block chaining\<close>

text \<open>
  Modelled from the spec: the body of the AES primitives.  The spec: CBC-mode block
  encryption; \<open>keyLen\<close> must be 16, 24 or 32 (\<open>InvalidKeySize\<close>) and the IV 16 bytes
  (\<open>InvalidIVSize\<close>); the standard block padding always appends between 1 and 16 bytes, each
  holding the pad length; decryption validates and strips the padding and fails with
  \<open>DecryptionError\<close> when it is inconsistent.
\<close>

definition pkcsPad :: "byte list \<Rightarrow> byte list" where
  "pkcsPad plain =
     (let p = AES_BSIZE - length plain mod AES_BSIZE in plain @ replicate p (of_nat p))"

definition pkcsUnpad :: "byte list \<Rightarrow> error + byte list" where
  "pkcsUnpad padded =
     (if padded = [] then Inl DecryptionError
      else let p = unat (last padded) in
        if p = 0 then Inl DecryptionError
        else if AES_BSIZE < p then Inl DecryptionError
        else if length padded < p then Inl DecryptionError
        else if drop (length padded - p) padded \<noteq> replicate p (last padded)
          then Inl DecryptionError
        else Inr (take (length padded - p) padded))"

function splitBlocks :: "byte list \<Rightarrow> byte list list" where
  "splitBlocks bytes =
     (if bytes = [] then [] else take AES_BSIZE bytes # splitBlocks (drop AES_BSIZE bytes))"
  by pat_completeness auto
termination
  by (relation "measure length") (auto simp: AES_BSIZE_def)

definition xorBytes :: "byte list \<Rightarrow> byte list \<Rightarrow> byte list" where
  "xorBytes xs ys = map2 (XOR) xs ys"

primrec cbcEncrypt :: "aes_state list \<Rightarrow> byte list \<Rightarrow> byte list list \<Rightarrow> byte list list" where
  "cbcEncrypt rk prev [] = []"
| "cbcEncrypt rk prev (p # ps) =
     (let c = encryptBlock rk (xorBytes p prev) in c # cbcEncrypt rk c ps)"

primrec cbcDecrypt :: "aes_state list \<Rightarrow> byte list \<Rightarrow> byte list list \<Rightarrow> byte list list" where
  "cbcDecrypt rk prev [] = []"
| "cbcDecrypt rk prev (c # cs) = xorBytes (decryptBlock rk c) prev # cbcDecrypt rk c cs"

definition validKeySize :: "nat \<Rightarrow> bool" where
  "validKeySize keySize = (keySize = 16 \<or> keySize = 24 \<or> keySize = 32)"

subsection \<open>The primitives\<close>

text \<open>
  \<open>key\<close> lists the bytes at the \<^verbatim>\<open>const byte* key\<close> pointer, of which the first \<open>keySize\<close> are
  the key.  Reading \<open>keySize\<close> bytes from a shorter buffer is undefined in C++; the model
  rejects it as an invalid key size.
\<close>

definition encryptAES :: "byte list \<Rightarrow> byte list \<Rightarrow> nat \<Rightarrow> byte list \<Rightarrow> error + byte list" where
  "encryptAES data key keySize iv =
     (if validKeySize keySize \<and> keySize \<le> length key then
        if length iv = AES_BSIZE then
          Inr (concat (cbcEncrypt (roundKeys (take keySize key)) iv
                 (splitBlocks (pkcsPad (cString data)))))
        else Inl InvalidIVSize
      else Inl InvalidKeySize)"

text \<open>
  \<^verbatim>\<open>decryptAES(const std::string& data, const byte* key, std::size_t keySize, std::vector<byte>& iv)\<close>
  (Ripe.h:87): the ciphertext is a \<^verbatim>\<open>std::string\<close> with its own length.
\<close>

definition decryptAES :: "byte list \<Rightarrow> byte list \<Rightarrow> nat \<Rightarrow> byte list \<Rightarrow> error + byte list" where
  "decryptAES data key keySize iv =
     (if validKeySize keySize \<and> keySize \<le> length key then
        if length iv = AES_BSIZE then
          if data = [] then Inl DecryptionError
          else if length data mod AES_BSIZE = 0 then
            pkcsUnpad (concat (cbcDecrypt (roundKeys (take keySize key)) iv (splitBlocks data)))
          else Inl DecryptionError
        else Inl InvalidIVSize
      else Inl InvalidKeySize)"

text \<open>The composition \<open>decryptAES(encryptAES(data, key, iv), key, iv)\<close>; a failure propagates.\<close>

definition aesRoundTrip :: "byte list \<Rightarrow> byte list \<Rightarrow> nat \<Rightarrow> byte list \<Rightarrow> error + byte list" where
  "aesRoundTrip data key keySize iv =
     (case encryptAES data key keySize iv of
        Inl e \<Rightarrow> Inl e
      | Inr cipher \<Rightarrow> decryptAES cipher key keySize iv)"

subsection \<open>The hex-key overload\<close>

text \<open>
  Ripe.h:123-126:
  \<^verbatim>\<open>return encryptAES(buffer.c_str(), reinterpret_cast<const byte*>(hexToString(hexKey).c_str()), hexKey.size() / 2, iv);\<close>
  A failure of \<open>hexToString\<close> propagates to the caller.
\<close>

definition encryptAES_hex :: "byte list \<Rightarrow> string \<Rightarrow> byte list \<Rightarrow> error + byte list" where
  "encryptAES_hex buffer hexKey iv =
     (case hexToString hexKey of
        Inl e \<Rightarrow> Inl e
      | Inr key \<Rightarrow> encryptAES (c_str buffer) (c_str key) (length hexKey div 2) iv)"

section \<open>TransportFramer: prepareData, expectedDataSize and the envelope parser\<close>

text \<open>
  Modelled from the spec: the value of \<^verbatim>\<open>Ripe::DATA_DELIMITER\<close>, declared in Ripe.h without a
  value.  The spec's envelope is colon-delimited.
\<close>

definition DATA_DELIMITER :: char where
  "DATA_DELIMITER = CHR '':''"

text \<open>What is read through a \<^verbatim>\<open>const char*\<close> holding text: the characters before the first NUL.\<close>

definition cText :: "string \<Rightarrow> string" where
  "cText mem = takeWhile (\<lambda>c. c \<noteq> CHR 0x00) mem"

text \<open>
  Modelled from the spec: \<^verbatim>\<open>Ripe::prepareData(const char* data, const std::string& hexKey,
  const char* clientId)\<close>, declared in Ripe.h without a body.  The spec: generate a fresh random
  IV, AES-encrypt \<open>data\<close> under the key decoded from \<open>hexKey\<close>, base64-encode the ciphertext and
  emit \<open><cipherLength>:<ivHex>:[<clientId>:]<base64Payload>\<close>, with \<open>cipherLength\<close> the decimal
  byte length of the ciphertext before encoding and the client id field present when the
  client id is not empty.  The random IV is the explicit argument \<open>iv\<close>: the bytes drawn from
  the random source.
\<close>

definition prepareData :: "byte list \<Rightarrow> byte list \<Rightarrow> string \<Rightarrow> string \<Rightarrow> error + string" where
  "prepareData iv data hexKey clientId =
     (case hexToString hexKey of
        Inl e \<Rightarrow> Inl e
      | Inr key \<Rightarrow>
          (case encryptAES data key (length key) iv of
             Inl e \<Rightarrow> Inl e
           | Inr cipher \<Rightarrow>
               Inr (decimal (length cipher) @ [DATA_DELIMITER]
                    @ stringToHex iv @ [DATA_DELIMITER]
                    @ (if cText clientId = [] then [] else cText clientId @ [DATA_DELIMITER])
                    @ base64Encode cipher)))"

text \<open>
  Modelled from the spec: \<^verbatim>\<open>Ripe::expectedDataSize\<close>, declared in Ripe.h without a body.  The
  spec: digits of cipherLength + 1 + 32 hex IV chars + 1 + optional (clientIdSize + 1) +
  the base64 length of \<open>expectedAESCipherLength plainSize\<close>; computed in \<^verbatim>\<open>std::size_t\<close>.
\<close>

definition expectedDataSize :: "'a::len word \<Rightarrow> 'a word \<Rightarrow> 'a word" where
  "expectedDataSize plainDataSize clientIdSize =
     (let cipherLength = expectedAESCipherLength plainDataSize
      in of_nat (length (decimal (unat cipherLength))) + 1 + 32 + 1
         + (if 0 < clientIdSize then clientIdSize + 1 else 0)
         + expectedBase64Length cipherLength)"

subsection \<open>Parsing and decrypting an envelope\<close>

text \<open>
  Modelled from the spec: the text helper
  \<^verbatim>\<open>decryptAES(std::string& data, const std::string& hexKey, std::string& iv, bool isBase64, bool isHex)\<close>
  (Ripe.h:133), declared without a body.  The spec: it accepts an envelope, or a raw
  ciphertext with a separately supplied IV; the payload is base64-decoded and then
  hex-decoded as the flags say; the fields are read by a linear state machine
  \<open>ExpectLength \<rightarrow> ExpectIV \<rightarrow> ExpectClientIdOrPayload \<rightarrow> ExpectPayload \<rightarrow> Done\<close> that moves on at
  each colon; a wrong field count, a non-numeric length or a length that differs from the
  decoded payload's is a \<open>ParseError\<close>.
\<close>

datatype parse_state = ExpectLength | ExpectIV | ExpectClientIdOrPayload | ExpectPayload | Done

record envelope =
  envLength :: string
  envIV :: string
  envClientId :: string
  envPayload :: string

definition emptyEnvelope :: envelope where
  "emptyEnvelope = \<lparr>envLength = [], envIV = [], envClientId = [], envPayload = []\<rparr>"

text \<open>
  \<open>field\<close> collects the characters of the field being read.  At a colon the field is
  stored and the state advances; at the end of the input the field is the payload, which
  only the last two reading states allow.
\<close>

fun parseEnvelope :: "parse_state \<Rightarrow> string \<Rightarrow> envelope \<Rightarrow> string \<Rightarrow> error + envelope" where
  "parseEnvelope st field env [] =
     (case st of
        ExpectClientIdOrPayload \<Rightarrow> Inr (env\<lparr>envPayload := field\<rparr>)
      | ExpectPayload \<Rightarrow> Inr (env\<lparr>envPayload := field\<rparr>)
      | _ \<Rightarrow> Inl ParseError)"
| "parseEnvelope st field env (c # cs) =
     (if c = DATA_DELIMITER then
        (case st of
           ExpectLength \<Rightarrow> parseEnvelope ExpectIV [] (env\<lparr>envLength := field\<rparr>) cs
         | ExpectIV \<Rightarrow> parseEnvelope ExpectClientIdOrPayload [] (env\<lparr>envIV := field\<rparr>) cs
         | ExpectClientIdOrPayload \<Rightarrow>
             parseEnvelope ExpectPayload [] (env\<lparr>envClientId := field\<rparr>) cs
         | _ \<Rightarrow> Inl ParseError)
      else parseEnvelope st (field @ [c]) env cs)"

definition bytesOfText :: "string \<Rightarrow> byte list" where
  "bytesOfText s = map (\<lambda>c. of_nat (of_char c)) s"

definition textOfBytes :: "byte list \<Rightarrow> string" where
  "textOfBytes bs = map (\<lambda>b. char_of (unat b)) bs"

definition decodePayload :: "string \<Rightarrow> bool \<Rightarrow> bool \<Rightarrow> error + byte list" where
  "decodePayload payload isBase64 isHex =
     (case (if isBase64 then base64Decode payload else Inr (bytesOfText payload)) of
        Inl e \<Rightarrow> Inl e
      | Inr raw \<Rightarrow> if isHex then hexToString (textOfBytes raw) else Inr raw)"

definition decryptAES_text :: "string \<Rightarrow> string \<Rightarrow> string \<Rightarrow> bool \<Rightarrow> bool \<Rightarrow> error + byte list" where
  "decryptAES_text data hexKey iv isBase64 isHex =
     (case (if iv = [] then parseEnvelope ExpectLength [] emptyEnvelope data
            else Inr (emptyEnvelope\<lparr>envIV := iv, envPayload := data\<rparr>)) of
        Inl e \<Rightarrow> Inl e
      | Inr env \<Rightarrow>
          (case decodePayload (envPayload env) isBase64 isHex of
             Inl e \<Rightarrow> Inl e
           | Inr cipher \<Rightarrow>
               if iv = [] \<and> parseDecimal (envLength env) \<noteq> Some (length cipher)
               then Inl ParseError
               else
                 (case hexToString hexKey of
                    Inl e \<Rightarrow> Inl e
                  | Inr key \<Rightarrow>
                      (case hexToString (envIV env) of
                         Inl e \<Rightarrow> Inl e
                       | Inr ivBytes \<Rightarrow> decryptAES cipher key (length key) ivBytes))))"

text \<open>
  The envelope round trip \<open>parse(prepareData(data, hexKey, clientId))\<close>: the envelope is
  handed to the text helper with the same key, no separate IV, and base64 decoding.
\<close>

definition envelopeRoundTrip :: "byte list \<Rightarrow> byte list \<Rightarrow> string \<Rightarrow> string \<Rightarrow> error + byte list" where
  "envelopeRoundTrip iv data hexKey clientId =
     (case prepareData iv data hexKey clientId of
        Inl e \<Rightarrow> Inl e
      | Inr env \<Rightarrow> decryptAES_text env hexKey [] True False)"

section \<open>Properties of the size helpers\<close>

subsection \<open>expectedAESCipherLength\<close>

lemma unat_16_fits:
  assumes "unat (n :: 'a::len word) + 16 < 2 ^ LENGTH('a)"
  shows "unat (16 :: 'a word) = 16"
proof -
  have "(16::nat) < 2 ^ LENGTH('a)" using assms by linarith
  then show ?thesis by (simp add: take_bit_nat_eq_self)
qed

lemma unat_expectedAESCipherLength:
  assumes "unat (n :: 'a::len word) + 16 < 2 ^ LENGTH('a)"
  shows "unat (expectedAESCipherLength n) = (unat n div 16 + 1) * 16"
proof -
  have s: "unat (16 :: 'a word) = 16" using assms by (rule unat_16_fits)
  have d: "unat (n div 16) = unat n div 16" unfolding unat_div s ..
  have "unat (n div 16) + unat (1 :: 'a word) < 2 ^ LENGTH('a)"
    using assms d by simp
  then have "unat (n div 16 + 1) = unat (n div 16) + unat (1 :: 'a word)"
    by (rule iffD1 [OF unat_add_lem])
  then have a: "unat (n div 16 + 1) = unat n div 16 + 1"
    unfolding d by simp
  have "(unat n div 16 + 1) * 16 \<le> unat n + 16" by simp
  then have lt: "unat (n div 16 + 1) * unat (16 :: 'a word) < 2 ^ LENGTH('a)"
    unfolding a s using assms by linarith
  then have "unat ((n div 16 + 1) * 16) = unat (n div 16 + 1) * unat (16 :: 'a word)"
    unfolding unat_mult_lem .
  then show ?thesis unfolding expectedAESCipherLength_def AES_BSIZE_def a s by simp
qed

lemma next_multiple_16_least:
  fixes n m :: nat
  assumes "16 dvd m" "n < m"
  shows "(n div 16 + 1) * 16 \<le> m"
proof -
  from assms(1) obtain q where q: "m = 16 * q" ..
  with assms(2) have "n div 16 < q" by (simp add: div_less_iff_less_mult mult.commute)
  then have "n div 16 + 1 \<le> q" by simp
  then have "(n div 16 + 1) * 16 \<le> q * 16" by (rule mult_le_mono1)
  with q show ?thesis by (simp add: mult.commute)
qed

text \<open>
  C10.  Whenever \<open>n + 16\<close> does not overflow \<^verbatim>\<open>std::size_t\<close>,
  \<open>expectedAESCipherLength n\<close> is the smallest multiple of 16 strictly greater than \<open>n\<close>:
  it lies in \<open>(n, n + 16]\<close>, is divisible by 16, and every multiple of 16 above \<open>n\<close> is at
  least as large.
\<close>

theorem expectedAESCipherLength_next_multiple:
  fixes n :: "'a::len word"
  assumes "unat n + 16 < 2 ^ LENGTH('a)"
  shows "unat n < unat (expectedAESCipherLength n)
       \<and> unat (expectedAESCipherLength n) \<le> unat n + 16
       \<and> 16 dvd unat (expectedAESCipherLength n)
       \<and> (\<forall>m. 16 dvd m \<and> unat n < m \<longrightarrow> unat (expectedAESCipherLength n) \<le> m)"
proof -
  have e: "unat (expectedAESCipherLength n) = (unat n div 16 + 1) * 16"
    using assms by (rule unat_expectedAESCipherLength)
  have "unat n < (unat n div 16 + 1) * 16"
    using div_mult_mod_eq [of "unat n" 16] by simp
  moreover have "(unat n div 16 + 1) * 16 \<le> unat n + 16" by simp
  moreover have "16 dvd (unat n div 16 + 1) * 16" by simp
  moreover have "\<forall>m. 16 dvd m \<and> unat n < m \<longrightarrow> (unat n div 16 + 1) * 16 \<le> m"
    using next_multiple_16_least by blast
  ultimately show ?thesis unfolding e by blast
qed

theorem expectedAESCipherLength_next_multiple_witness:
  "unat (5 :: 64 word) + 16 < 2 ^ LENGTH(64)
   \<and> unat (5 :: 64 word) < unat (expectedAESCipherLength (5 :: 64 word))
   \<and> unat (expectedAESCipherLength (5 :: 64 word)) \<le> unat (5 :: 64 word) + 16
   \<and> 16 dvd unat (expectedAESCipherLength (5 :: 64 word))
   \<and> (16::nat) dvd 16 \<and> unat (5 :: 64 word) < 16
   \<and> unat (expectedAESCipherLength (5 :: 64 word)) \<le> 16"
proof -
  have h: "unat (5 :: 64 word) + 16 < 2 ^ LENGTH(64)" by simp
  have m: "(16::nat) dvd 16 \<and> unat (5 :: 64 word) < 16" by simp
  show ?thesis using h m expectedAESCipherLength_next_multiple [OF h] by blast
qed

subsection \<open>maxRSABlockSize\<close>

declare splitRSABlocks.simps [simp del]

lemma ge4_pow: 
  assumes "4 \<le> LENGTH('a::len)"
  shows "(16::int) \<le> 2 ^ LENGTH('a)"
proof -
  have "(2::int) ^ 4 \<le> 2 ^ LENGTH('a)" using assms by (rule power_increasing) simp
  then show ?thesis by simp
qed

lemma uint_maxRSABlockSize:
  fixes keySize :: "'a::len word"
  assumes "4 \<le> LENGTH('a)"
  shows "uint (maxRSABlockSize keySize :: 'b::len word) =
         (((uint keySize - 384) mod 2 ^ LENGTH('a)) div 8 + 7) mod 2 ^ LENGTH('b)"
proof -
  let ?W = "(2::int) ^ LENGTH('a)"
  have W: "16 \<le> ?W" using assms by (rule ge4_pow)
  have u8: "uint (8 :: 'a word) = 8"
    using W by (simp add: uint_word_of_int take_bit_int_eq_self)
  have u7: "uint (7 :: 'a word) = 7"
    using W by (simp add: take_bit_int_eq_self)
  have "uint (word_of_int 384 :: 'a word) = 384 mod ?W"
    by (rule uint_word_of_int)
  then have "uint (384 :: 'a word) = 384 mod ?W"
    by (simp only: word_of_int_numeral)
  then have "uint (keySize - 384) = (uint keySize - 384 mod ?W) mod ?W"
    by (simp only: uint_word_ariths)
  then have s: "uint (keySize - 384) = (uint keySize - 384) mod ?W"
    by (simp only: mod_diff_right_eq)
  have d: "uint ((keySize - 384) div 8) = ((uint keySize - 384) mod ?W) div 8"
    by (simp only: uint_div u8 s)
  have lt: "(uint keySize - 384) mod ?W < ?W" by simp
  have ge: "0 \<le> (uint keySize - 384) mod ?W" by simp
  have fit: "((uint keySize - 384) mod ?W) div 8 + 7 < ?W" using lt ge W by linarith
  have "uint ((keySize - 384) div 8 + 7) = (uint ((keySize - 384) div 8) + uint (7 :: 'a word)) mod ?W"
    by (simp only: uint_word_ariths)
  also have "\<dots> = (((uint keySize - 384) mod ?W) div 8 + 7) mod ?W"
    by (simp only: d u7)
  also have "\<dots> = ((uint keySize - 384) mod ?W) div 8 + 7"
  proof (rule mod_pos_pos_trivial)
    show "0 \<le> ((uint keySize - 384) mod ?W) div 8 + 7" using ge by linarith
    show "((uint keySize - 384) mod ?W) div 8 + 7 < ?W" by (rule fit)
  qed
  finally have a: "uint ((keySize - 384) div 8 + 7) = ((uint keySize - 384) mod ?W) div 8 + 7" .
  have "uint (ucast ((keySize - 384) div 8 + 7) :: 'b word) =
        take_bit LENGTH('b) (uint ((keySize - 384) div 8 + 7))"
    by (rule unsigned_ucast_eq)
  then show ?thesis
    unfolding maxRSABlockSize_def a take_bit_eq_mod .
qed

text \<open>
  C9 (amended).  The subtraction is done in \<^verbatim>\<open>std::size_t\<close> and wraps modulo \<open>2 ^ w\<close>, but
  the result is then converted to the declared result type \<^verbatim>\<open>unsigned int\<close> of width \<open>u\<close>: for
  every \<open>keySize < 384\<close> the function returns
  \<open>(((keySize - 384) mod 2 ^ w) div 8 + 7) mod 2 ^ u\<close>, never a negative number or an error.
  This is the value \<open>((keySize - 384) mod 2 ^ w) div 8 + 7\<close> exactly when that value is below
  \<open>2 ^ u\<close>, which is the case whenever \<open>w \<le> u\<close>.
\<close>

theorem maxRSABlockSize_below_384:
  fixes keySize :: "'a::len word"
  assumes "4 \<le> LENGTH('a)" and "uint keySize < 384"
  shows "uint (maxRSABlockSize keySize :: 'b::len word) =
           (((uint keySize - 384) mod 2 ^ LENGTH('a)) div 8 + 7) mod 2 ^ LENGTH('b)
       \<and> 0 \<le> uint (maxRSABlockSize keySize :: 'b word)
       \<and> (uint (maxRSABlockSize keySize :: 'b word) =
              ((uint keySize - 384) mod 2 ^ LENGTH('a)) div 8 + 7)
           = (((uint keySize - 384) mod 2 ^ LENGTH('a)) div 8 + 7 < 2 ^ LENGTH('b))
       \<and> (LENGTH('a) \<le> LENGTH('b) \<longrightarrow>
            uint (maxRSABlockSize keySize :: 'b word) =
              ((uint keySize - 384) mod 2 ^ LENGTH('a)) div 8 + 7)"
proof -
  let ?W = "(2::int) ^ LENGTH('a)"
  let ?U = "(2::int) ^ LENGTH('b)"
  let ?v = "((uint keySize - 384) mod ?W) div 8 + 7"
  have f: "uint (maxRSABlockSize keySize :: 'b word) = ?v mod ?U"
    using assms(1) by (rule uint_maxRSABlockSize)
  have W: "16 \<le> ?W" using assms(1) by (rule ge4_pow)
  have ge: "0 \<le> (uint keySize - 384) mod ?W" by simp
  have lt: "(uint keySize - 384) mod ?W < ?W" by simp
  have v0: "0 \<le> ?v" using ge by linarith
  have vW: "?v < ?W" using lt ge W by linarith
  have small: "?v mod ?U = ?v" if "?v < ?U"
    using v0 that by (rule mod_pos_pos_trivial)
  have big: "?v mod ?U \<noteq> ?v" if "\<not> ?v < ?U"
  proof -
    have "?v mod ?U < ?U" by simp
    with that show ?thesis by linarith
  qed
  have iff: "(?v mod ?U = ?v) = (?v < ?U)" using small big by blast
  have wide: "?v < ?U" if "LENGTH('a) \<le> LENGTH('b)"
  proof -
    have "?W \<le> ?U" using that by (rule power_increasing) simp
    with vW show ?thesis by linarith
  qed
  show ?thesis unfolding f using iff small wide by simp
qed

theorem maxRSABlockSize_below_384_witness:
  "4 \<le> LENGTH(32) \<and> uint (100 :: 32 word) < 384
   \<and> uint (maxRSABlockSize (100 :: 32 word) :: 32 word) =
       (((uint (100 :: 32 word) - 384) mod 2 ^ LENGTH(32)) div 8 + 7) mod 2 ^ LENGTH(32)
   \<and> ((uint (100 :: 32 word) - 384) mod 2 ^ LENGTH(32)) div 8 + 7 < 2 ^ LENGTH(32)
   \<and> LENGTH(32) \<le> LENGTH(32)
   \<and> uint (maxRSABlockSize (100 :: 32 word) :: 32 word) =
       ((uint (100 :: 32 word) - 384) mod 2 ^ LENGTH(32)) div 8 + 7
   \<and> maxRSABlockSize (100 :: 32 word) = (536870883 :: 32 word)"
proof -
  have h1: "4 \<le> LENGTH(32)" by simp
  have h2: "uint (100 :: 32 word) < 384" by simp
  have v: "maxRSABlockSize (100 :: 32 word) = (536870883 :: 32 word)"
    by (simp add: maxRSABlockSize_def)
  have s: "((uint (100 :: 32 word) - 384) mod 2 ^ LENGTH(32)) div 8 + 7 < 2 ^ LENGTH(32)"
    by simp
  have l: "LENGTH(32) \<le> LENGTH(32)" by simp
  show ?thesis
    using h1 h2 l s v maxRSABlockSize_below_384 [OF h1 h2, where 'b = 32] by blast
qed

text \<open>
  With a 64-bit \<^verbatim>\<open>std::size_t\<close> and a 32-bit \<^verbatim>\<open>unsigned int\<close>, key size 383 gives 6, not
  \<open>((383 - 384) mod 2 ^ 64) div 8 + 7\<close>.
\<close>

theorem maxRSABlockSize_below_384_counterexample:
  "maxRSABlockSize (383 :: 64 word) = (6 :: 32 word)
   \<and> ((uint (383 :: 64 word) - 384) mod 2 ^ LENGTH(64)) div 8 + 7 = 2305843009213693958
   \<and> uint (maxRSABlockSize (383 :: 64 word) :: 32 word) \<noteq>
       ((uint (383 :: 64 word) - 384) mod 2 ^ LENGTH(64)) div 8 + 7"
  by (simp add: maxRSABlockSize_def)


lemma splitRSABlocks_fits:
  "length data \<le> blockSize \<Longrightarrow> splitRSABlocks blockSize data = [data]"
  by (simp add: splitRSABlocks.simps)


lemma concat_splitRSABlocks: "concat (splitRSABlocks blockSize data) = data"
proof (induction blockSize data rule: splitRSABlocks.induct)
  case (1 blockSize data)
  show ?case
  proof (cases "blockSize = 0 \<or> length data \<le> blockSize")
    case True
    then show ?thesis by (subst splitRSABlocks.simps) simp
  next
    case False
    then have "concat (splitRSABlocks blockSize (drop blockSize data)) = drop blockSize data"
      by (rule "1.IH")
    with False show ?thesis by (subst splitRSABlocks.simps) simp
  qed
qed

lemma splitRSABlocks_bounded:
  "0 < blockSize \<Longrightarrow> b \<in> set (splitRSABlocks blockSize data) \<Longrightarrow> length b \<le> blockSize"
proof (induction blockSize data rule: splitRSABlocks.induct)
  case (1 blockSize data)
  show ?case
  proof (cases "length data \<le> blockSize")
    case True
    with "1.prems" show ?thesis by (simp add: splitRSABlocks_fits)
  next
    case False
    with "1.prems"(1) have "splitRSABlocks blockSize data =
        take blockSize data # splitRSABlocks blockSize (drop blockSize data)"
      by (subst splitRSABlocks.simps) simp
    with "1.prems"(2) have "b = take blockSize data
        \<or> b \<in> set (splitRSABlocks blockSize (drop blockSize data))"
      by simp
    then show ?thesis
    proof
      assume "b = take blockSize data" then show ?thesis by simp
    next
      assume "b \<in> set (splitRSABlocks blockSize (drop blockSize data))"
      with False "1.prems"(1) show ?thesis by (intro "1.IH") simp_all
    qed
  qed
qed


subsection \<open>Encryption in blocks\<close>












subsection \<open>expectedBase64Length and base64Encode\<close>

lemma length_base64Encode: "length (base64Encode x) = 4 * ((length x + 2) div 3)"
proof (induction x rule: base64Encode.induct)
  case (4 a b c rest)
  have "(length (a # b # c # rest) + 2) div 3 = (length rest + 2) div 3 + 1" by simp
  with 4 show ?case by simp
qed simp_all

lemma base64_length_arith: "((4 * n) div 3 + 3) div 4 * 4 = 4 * ((n + 2) div 3)" for n :: nat
proof -
  define q r where "q = n div 3" and "r = n mod 3"
  have n: "n = 3 * q + r" and r: "r < 3" by (simp_all add: q_def r_def)
  from r consider "r = 0" | "r = 1" | "r = 2" by linarith
  then show ?thesis
  proof cases
    case 1
    have "4 * n = 12 * q" using n 1 by simp
    then have "(4 * n) div 3 = 4 * q" by simp
    moreover have "(n + 2) div 3 = q" using n 1 by simp
    ultimately show ?thesis by simp
  next
    case 2
    have "4 * n = 3 * (4 * q + 1) + 1" using n 2 by simp
    then have "(4 * n) div 3 = 4 * q + 1" by simp
    moreover have "n + 2 = 3 * (q + 1)" using n 2 by simp
    then have "(n + 2) div 3 = q + 1" by simp
    ultimately show ?thesis by simp
  next
    case 3
    have "4 * n = 3 * (4 * q + 2) + 2" using n 3 by simp
    then have "(4 * n) div 3 = 4 * q + 2" by simp
    moreover have "n + 2 = 3 * (q + 1) + 1" using n 3 by simp
    then have "(n + 2) div 3 = q + 1" by simp
    ultimately show ?thesis by simp
  qed
qed

lemma and_not_3: "w AND NOT 3 = push_bit 2 (drop_bit 2 w)" for w :: "'a::len word"
proof -
  have "(3 :: 'a word) = mask 2" by (simp add: mask_eq_exp_minus_1)
  moreover have s: "Suc (Suc (n - 2)) = n" if "2 \<le> n" for n
    using that by arith
  have "w AND NOT (mask 2) = push_bit 2 (drop_bit 2 w)"
    by (rule bit_eqI) (auto simp: bit_simps s not_less)
  ultimately show ?thesis by simp
qed

lemma unat_and_not_3: "unat (w AND NOT 3) = unat w div 4 * 4" for w :: "'a::len word"
proof -
  have "unat w div 4 * 4 \<le> unat w" by simp
  also have "\<dots> < 2 ^ LENGTH('a)" by simp
  finally have lt: "unat w div 4 * 4 < 2 ^ LENGTH('a)" .
  have "unat (push_bit 2 (drop_bit 2 w)) = take_bit LENGTH('a) (push_bit 2 (drop_bit 2 (unat w)))"
    by (simp add: unsigned_push_bit_eq unsigned_drop_bit_eq take_bit_nat_eq_self)
  also have "\<dots> = take_bit LENGTH('a) (unat w div 4 * 4)"
    by (simp add: push_bit_eq_mult drop_bit_eq_div)
  also have "\<dots> = unat w div 4 * 4"
    using lt by (rule take_bit_nat_eq_self)
  finally show ?thesis by (simp only: and_not_3)
qed

lemma unat_expectedBase64Length:
  fixes n :: "'a::len word"
  assumes "4 * unat n + 3 < 2 ^ LENGTH('a)"
  shows "unat (expectedBase64Length n) = ((4 * unat n) div 3 + 3) div 4 * 4"
proof -
  let ?W = "(2::nat) ^ LENGTH('a)"
  have W: "3 < ?W" using assms by linarith
  have u3: "unat (3 :: 'a word) = 3" using W by (simp add: take_bit_nat_eq_self)
  have "4 * n = (of_nat (4 * unat n) :: 'a word)" by simp
  then have "unat (4 * n) = (4 * unat n) mod ?W" by (simp only: unat_of_nat)
  then have m: "unat (4 * n) = 4 * unat n" using assms by simp
  have d: "unat (4 * n div 3) = (4 * unat n) div 3"
    unfolding unat_div u3 m ..
  have "unat (4 * n div 3) + unat (3 :: 'a word) < ?W"
    unfolding d u3 using assms by linarith
  then have "unat (4 * n div 3 + 3) = unat (4 * n div 3) + unat (3 :: 'a word)"
    by (rule iffD1 [OF unat_add_lem])
  then have a: "unat (4 * n div 3 + 3) = (4 * unat n) div 3 + 3"
    unfolding d u3 .
  show ?thesis
    unfolding expectedBase64Length_def unat_and_not_3 a ..
qed

text \<open>
  C5 (amended).  For every input whose length \<open>n\<close> satisfies \<open>4 * n + 3 < 2 ^ w\<close>, so that
  the multiplication in \<^verbatim>\<open>std::size_t\<close> does not wrap, \<open>expectedBase64Length n\<close> is
  \<open>4 * n div 3 + 3\<close> rounded down to a multiple of 4, and that is exactly the length of the
  base64 encoding of the input.
\<close>

theorem expectedBase64Length_exact:
  fixes x :: "byte list"
  assumes "4 * length x + 3 < 2 ^ LENGTH('a::len)"
  shows "unat (expectedBase64Length (of_nat (length x) :: 'a word)) =
           ((4 * length x) div 3 + 3) div 4 * 4
       \<and> unat (expectedBase64Length (of_nat (length x) :: 'a word)) = length (base64Encode x)"
proof -
  have "length x < 2 ^ LENGTH('a)" using assms by linarith
  then have u: "unat (of_nat (length x) :: 'a word) = length x"
    by (simp add: unat_of_nat)
  then have "4 * unat (of_nat (length x) :: 'a word) + 3 < 2 ^ LENGTH('a)"
    using assms by simp
  then have "unat (expectedBase64Length (of_nat (length x) :: 'a word)) =
      ((4 * unat (of_nat (length x) :: 'a word)) div 3 + 3) div 4 * 4"
    by (rule unat_expectedBase64Length)
  then have e: "unat (expectedBase64Length (of_nat (length x) :: 'a word)) =
      ((4 * length x) div 3 + 3) div 4 * 4"
    unfolding u .
  show ?thesis
    unfolding e by (simp only: base64_length_arith length_base64Encode)
qed

theorem expectedBase64Length_exact_witness:
  "4 * length [104, 101, 108, 108, 111 :: byte] + 3 < 2 ^ LENGTH(64)
   \<and> unat (expectedBase64Length (of_nat (length [104, 101, 108, 108, 111 :: byte]) :: 64 word)) =
       ((4 * length [104, 101, 108, 108, 111 :: byte]) div 3 + 3) div 4 * 4
   \<and> unat (expectedBase64Length (of_nat (length [104, 101, 108, 108, 111 :: byte]) :: 64 word)) =
       length (base64Encode [104, 101, 108, 108, 111])
   \<and> length (base64Encode [104, 101, 108, 108, 111]) = 8"
proof -
  have h: "4 * length [104, 101, 108, 108, 111 :: byte] + 3 < 2 ^ LENGTH(64)" by simp
  have l: "length (base64Encode [104, 101, 108, 108, 111]) = 8" by simp
  show ?thesis
    using h l expectedBase64Length_exact [OF h] by blast
qed

text \<open>
  With a 32-bit \<^verbatim>\<open>std::size_t\<close>, an input of \<open>2 ^ 30\<close> bytes encodes to 1431655768
  characters, while \<open>4 * n\<close> wraps to 0 and \<open>expectedBase64Length\<close> returns 0.
\<close>

theorem expectedBase64Length_exact_counterexample:
  "expectedBase64Length (of_nat (length (replicate 1073741824 (0 :: byte))) :: 32 word) = 0
   \<and> length (base64Encode (replicate 1073741824 (0 :: byte))) = 1431655768"
  by (simp add: expectedBase64Length_def length_base64Encode)


section \<open>The AES inverse cipher inverts the cipher\<close>

lemma xtime_xor: "xtime (a XOR b) = xtime a XOR xtime b"
  by (cases "bit a 7"; cases "bit b 7")
     (simp_all add: xtime_def bit_xor_iff push_bit_xor ac_simps)

lemma xor_cancel_left: "a XOR (a XOR b) = b" for a b :: byte
  by (simp flip: xor.assoc)

lemmas xor_ac = xor.assoc xor.commute xor.left_commute

text \<open>
  The two column matrices are inverse to each other as polynomials in \<open>xtime\<close>; only the
  linearity of \<open>xtime\<close> is needed.
\<close>

lemma invMixColumn_mixColumn: "invMixColumn (mixColumn c) = c"
proof (cases c)
  case (fields a b c d)
  show ?thesis
    unfolding fields
    by (simp add: mul3_def mul9_def mul11_def mul13_def mul14_def xtime_xor xor_ac xor_cancel_left)
qed

lemma invShiftRows_shiftRows: "invShiftRows (shiftRows s) = s"
  by (cases s rule: shiftRows.cases) simp

lemma xorWord_cancel: "xorWord (xorWord c k) k = c"
  by (cases c; cases k) (simp add: xor_ac xor_cancel_left)

lemma addRoundKey_cancel: "addRoundKey k (addRoundKey k s) = s"
  by (cases k rule: subBytes.cases; cases s rule: subBytes.cases) (simp add: xorWord_cancel)

lemma byte_exhaust:
  assumes "list_all (\<lambda>n. P (of_nat n :: byte)) [0..<256]"
  shows "P b"
proof -
  have "unat b < 256" using unsigned_less [of b] by simp
  then have "unat b \<in> set [0..<256]" by simp
  with assms have "P (of_nat (unat b))" unfolding list_all_iff by blast
  then show ?thesis by simp
qed

lemma sbox_table_check:
  "list_all (\<lambda>n. invSubByte (subByte (of_nat n)) = of_nat n) [0..<256]"
  by code_simp

lemma invSubByte_subByte: "invSubByte (subByte b) = b"
  using sbox_table_check by (rule byte_exhaust)

lemma invSubWord_subWord: "invSubWord (subWord w) = w"
  by (cases w rule: subWord.cases) (simp add: invSubByte_subByte)

lemma invSubBytes_subBytes: "invSubBytes (subBytes s) = s"
  by (cases s rule: subBytes.cases) (simp add: invSubWord_subWord)

lemma invMixColumns_mixColumns: "invMixColumns (mixColumns s) = s"
  by (cases s rule: subBytes.cases) (simp add: invMixColumn_mixColumn)

lemma aesInvRound_aesRound: "aesInvRound k (aesRound k s) = s"
  by (simp add: aesInvRound_def aesRound_def addRoundKey_cancel invMixColumns_mixColumns
      invShiftRows_shiftRows invSubBytes_subBytes)

lemma aesInvFinalRound_aesFinalRound: "aesInvFinalRound k (aesFinalRound k s) = s"
  by (simp add: aesInvFinalRound_def aesFinalRound_def addRoundKey_cancel
      invShiftRows_shiftRows invSubBytes_subBytes)

lemma aesInvRounds_aesRounds: "aesInvRounds ks (aesRounds ks s) = s"
  by (induction ks s rule: aesRounds.induct)
     (simp_all add: aesInvRound_aesRound aesInvFinalRound_aesFinalRound)

lemma aesInvCipher_aesCipher: "aesInvCipher rk (aesCipher rk s) = s"
  by (cases rk) (simp_all add: aesInvRounds_aesRounds addRoundKey_cancel)

lemma length_fromState: "length (fromState s) = 16"
  by (cases s rule: shiftRows.cases) simp

lemma toState_fromState: "toState (fromState s) = s"
  by (cases s rule: shiftRows.cases) (simp add: toState_def)

lemma list16:
  assumes "length (xs :: 'a list) = 16"
  obtains a0 a1 a2 a3 a4 a5 a6 a7 a8 a9 a10 a11 a12 a13 a14 a15
  where "xs = [a0, a1, a2, a3, a4, a5, a6, a7, a8, a9, a10, a11, a12, a13, a14, a15]"
proof -
  from assms have "length xs = Suc (Suc (Suc (Suc (Suc (Suc (Suc (Suc (Suc (Suc (Suc (Suc (Suc (Suc (Suc (Suc 0)))))))))))))))"
    by simp
  then show ?thesis using that by (auto simp: length_Suc_conv)
qed

lemma fromState_toState:
  assumes "length block = 16"
  shows "fromState (toState block) = block"
proof -
  from assms obtain a0 a1 a2 a3 a4 a5 a6 a7 a8 a9 a10 a11 a12 a13 a14 a15
    where "block = [a0, a1, a2, a3, a4, a5, a6, a7, a8, a9, a10, a11, a12, a13, a14, a15]"
    by (rule list16)
  then show ?thesis by (simp add: toState_def)
qed

lemma length_encryptBlock: "length (encryptBlock rk block) = 16"
  by (simp add: encryptBlock_def length_fromState)

lemma length_decryptBlock: "length (decryptBlock rk block) = 16"
  by (simp add: decryptBlock_def length_fromState)

lemma decryptBlock_encryptBlock:
  "length block = 16 \<Longrightarrow> decryptBlock rk (encryptBlock rk block) = block"
  by (simp add: decryptBlock_def encryptBlock_def toState_fromState aesInvCipher_aesCipher
      fromState_toState)

section \<open>CBC chaining and padding\<close>

declare splitBlocks.simps [simp del]

lemma xorBytes_cancel: "length xs = length ys \<Longrightarrow> xorBytes (xorBytes xs ys) ys = xs"
proof (induction xs ys rule: list_induct2)
  case Nil
  then show ?case by (simp add: xorBytes_def)
next
  case (Cons x xs y ys)
  then show ?case by (simp add: xorBytes_def xor_ac xor_cancel_left)
qed

lemma length_xorBytes: "length (xorBytes xs ys) = min (length xs) (length ys)"
  by (simp add: xorBytes_def)

lemma cbcDecrypt_cbcEncrypt:
  assumes "length prev = 16" and "\<forall>p \<in> set ps. length p = 16"
  shows "cbcDecrypt rk prev (cbcEncrypt rk prev ps) = ps"
  using assms
proof (induction ps arbitrary: prev)
  case Nil
  then show ?case by simp
next
  case (Cons p ps)
  let ?c = "encryptBlock rk (xorBytes p prev)"
  have lp: "length p = 16" using Cons.prems(2) by simp
  have lx: "length (xorBytes p prev) = 16" using lp Cons.prems(1) by (simp add: length_xorBytes)
  have d: "decryptBlock rk ?c = xorBytes p prev" using lx by (rule decryptBlock_encryptBlock)
  have x: "xorBytes (xorBytes p prev) prev = p"
    using lp Cons.prems(1) by (intro xorBytes_cancel) simp
  have "cbcDecrypt rk ?c (cbcEncrypt rk ?c ps) = ps"
    using Cons.prems(2) by (intro Cons.IH) (simp_all add: length_encryptBlock)
  then show ?case by (simp add: Let_def d x)
qed

lemma cbcEncrypt_blocks: "c \<in> set (cbcEncrypt rk prev ps) \<Longrightarrow> length c = 16"
  by (induction ps arbitrary: prev) (auto simp: Let_def length_encryptBlock)

lemma length_cbcEncrypt: "length (cbcEncrypt rk prev ps) = length ps"
  by (induction ps arbitrary: prev) (simp_all add: Let_def)

lemma length_concat_blocks:
  "\<forall>b \<in> set bs. length b = 16 \<Longrightarrow> length (concat bs) = 16 * length bs"
  by (induction bs) simp_all

lemma splitBlocks_concat:
  "\<forall>b \<in> set bs. length b = 16 \<Longrightarrow> splitBlocks (concat bs) = bs"
proof (induction bs)
  case Nil
  then show ?case by (simp add: splitBlocks.simps)
next
  case (Cons b bs)
  have lb: "length b = 16" using Cons.prems by simp
  then have ne: "b @ concat bs \<noteq> []" by auto
  have "splitBlocks (b @ concat bs) = take AES_BSIZE (b @ concat bs) # splitBlocks (drop AES_BSIZE (b @ concat bs))"
    using ne by (subst splitBlocks.simps) simp
  also have "\<dots> = b # splitBlocks (concat bs)" using lb by (simp add: AES_BSIZE_def)
  also have "\<dots> = b # bs" using Cons by simp
  finally show ?case by simp
qed

lemma concat_splitBlocks: "concat (splitBlocks bytes) = bytes"
proof (induction bytes rule: splitBlocks.induct)
  case (1 bytes)
  show ?case
  proof (cases "bytes = []")
    case True
    then show ?thesis by (simp add: splitBlocks.simps)
  next
    case False
    with 1 have "concat (splitBlocks (drop AES_BSIZE bytes)) = drop AES_BSIZE bytes" by simp
    with False show ?thesis by (subst splitBlocks.simps) simp
  qed
qed

lemma splitBlocks_lengths:
  "length bytes mod 16 = 0 \<Longrightarrow> b \<in> set (splitBlocks bytes) \<Longrightarrow> length b = 16"
proof (induction bytes rule: splitBlocks.induct)
  case (1 bytes)
  show ?case
  proof (cases "bytes = []")
    case True
    with "1.prems" show ?thesis by (simp add: splitBlocks.simps)
  next
    case False
    then have ge: "16 \<le> length bytes" using "1.prems"(1) by (cases bytes) (auto simp: mod_eq_0_iff_dvd dest: dvd_imp_le)
    have eq: "splitBlocks bytes = take AES_BSIZE bytes # splitBlocks (drop AES_BSIZE bytes)"
      using False by (subst splitBlocks.simps) simp
    from "1.prems"(2) have "b = take AES_BSIZE bytes \<or> b \<in> set (splitBlocks (drop AES_BSIZE bytes))"
      unfolding eq by simp
    then show ?thesis
    proof
      assume "b = take AES_BSIZE bytes"
      with ge show ?thesis by (simp add: AES_BSIZE_def)
    next
      assume b: "b \<in> set (splitBlocks (drop AES_BSIZE bytes))"
      have "length (drop AES_BSIZE bytes) mod 16 = 0"
        using "1.prems"(1) ge by (simp add: AES_BSIZE_def mod_eq_0_iff_dvd dvd_diff_nat)
      with False b show ?thesis by (intro "1.IH")
    qed
  qed
qed

lemma length_splitBlocks:
  "length bytes mod 16 = 0 \<Longrightarrow> 16 * length (splitBlocks bytes) = length bytes"
proof -
  assume a: "length bytes mod 16 = 0"
  have "length (concat (splitBlocks bytes)) = 16 * length (splitBlocks bytes)"
    using splitBlocks_lengths [OF a] by (intro length_concat_blocks) blast
  then show ?thesis by (simp add: concat_splitBlocks)
qed

lemma pad_amount: "0 < AES_BSIZE - n mod AES_BSIZE \<and> AES_BSIZE - n mod AES_BSIZE \<le> AES_BSIZE"
  by (simp add: AES_BSIZE_def)

lemma length_pkcsPad: "length (pkcsPad plain) = (length plain div 16 + 1) * 16"
proof -
  define q r where "q = length plain div 16" and "r = length plain mod 16"
  have "r < 16" and "length plain = q * 16 + r" by (simp_all add: q_def r_def)
  then have "length plain + (16 - r) = (q + 1) * 16" by simp
  then have "length plain + (16 - length plain mod 16) = (length plain div 16 + 1) * 16"
    unfolding q_def r_def .
  then show ?thesis by (simp add: pkcsPad_def AES_BSIZE_def Let_def)
qed

lemma pkcsPad_nonempty: "pkcsPad plain \<noteq> []"
  using length_pkcsPad [of plain] by auto

lemma unat_pad_byte: "0 < p \<Longrightarrow> p \<le> 16 \<Longrightarrow> unat (of_nat p :: byte) = p"
  by (simp add: unat_of_nat)

lemma pkcsUnpad_pkcsPad: "pkcsUnpad (pkcsPad plain) = Inr plain"
proof -
  define p where "p = AES_BSIZE - length plain mod AES_BSIZE"
  have p: "0 < p" "p \<le> 16" by (simp_all add: p_def AES_BSIZE_def)
  have pad: "pkcsPad plain = plain @ replicate p (of_nat p)"
    by (simp add: pkcsPad_def p_def Let_def)
  have l: "last (plain @ replicate p (of_nat p :: byte)) = of_nat p"
    using p(1) by simp
  have u: "unat (of_nat p :: byte) = p" using p by (rule unat_pad_byte)
  show ?thesis
    unfolding pad pkcsUnpad_def l u using p by (simp add: AES_BSIZE_def Let_def)
qed

section \<open>encryptAES and decryptAES\<close>

lemma length_hexToString:
  "hexToString hex = Inr bytes \<Longrightarrow> length bytes = length hex div 2"
  by (induction hex arbitrary: bytes rule: hexToString.induct)
     (auto split: option.splits sum.splits)

lemma cString_c_str: "cString (c_str buffer) = takeWhile (\<lambda>b. b \<noteq> 0) buffer"
  by (induction buffer) (simp_all add: cString_def c_str_def)

lemma cString_idem: "cString (takeWhile (\<lambda>b. b \<noteq> 0) buffer) = takeWhile (\<lambda>b. b \<noteq> 0) buffer"
  by (simp add: cString_def)

lemma cString_no_zero: "0 \<notin> set data \<Longrightarrow> cString data = data"
  by (auto simp: cString_def takeWhile_eq_all_conv)

lemma takeWhile_cut: "takeWhile (\<lambda>b. b \<noteq> 0) (pre @ (0 :: byte) # post) = takeWhile (\<lambda>b. b \<noteq> 0) pre"
  by (induction pre) simp_all

lemma encryptAES_cString: "encryptAES data key keySize iv = encryptAES (cString data) key keySize iv"
  by (simp add: encryptAES_def cString_def)

lemma encryptAES_key_c_str:
  "keySize \<le> length key \<Longrightarrow> encryptAES data (c_str key) keySize iv = encryptAES data key keySize iv"
  by (simp add: encryptAES_def c_str_def)

lemma encryptAES_hex_eq:
  "encryptAES_hex buffer hexKey iv =
     (case hexToString hexKey of
        Inl e \<Rightarrow> Inl e
      | Inr key \<Rightarrow> encryptAES (takeWhile (\<lambda>b. b \<noteq> 0) buffer) key (length hexKey div 2) iv)"
proof (cases "hexToString hexKey")
  case (Inl e)
  then show ?thesis by (simp add: encryptAES_hex_def)
next
  case (Inr key)
  then have l: "length hexKey div 2 \<le> length key" by (simp add: length_hexToString)
  have "encryptAES (c_str buffer) (c_str key) (length hexKey div 2) iv =
        encryptAES (c_str buffer) key (length hexKey div 2) iv"
    using l by (rule encryptAES_key_c_str)
  also have "\<dots> = encryptAES (cString (c_str buffer)) key (length hexKey div 2) iv"
    by (rule encryptAES_cString)
  also have "\<dots> = encryptAES (takeWhile (\<lambda>b. b \<noteq> 0) buffer) key (length hexKey div 2) iv"
    by (simp only: cString_c_str)
  finally show ?thesis using Inr by (simp add: encryptAES_hex_def)
qed

lemma length_cipher:
  "length (concat (cbcEncrypt rk iv (splitBlocks (pkcsPad plain)))) = (length plain div 16 + 1) * 16"
proof -
  have m: "length (pkcsPad plain) mod 16 = 0" by (simp add: length_pkcsPad)
  have "length (concat (cbcEncrypt rk iv (splitBlocks (pkcsPad plain)))) =
        16 * length (cbcEncrypt rk iv (splitBlocks (pkcsPad plain)))"
    by (intro length_concat_blocks) (blast dest: cbcEncrypt_blocks)
  also have "\<dots> = 16 * length (splitBlocks (pkcsPad plain))" by (simp only: length_cbcEncrypt)
  also have "\<dots> = length (pkcsPad plain)" using m by (rule length_splitBlocks)
  finally show ?thesis by (simp only: length_pkcsPad)
qed

lemma encryptAES_valid:
  assumes "validKeySize keySize" "keySize \<le> length key" "length iv = 16"
  shows "encryptAES data key keySize iv =
         Inr (concat (cbcEncrypt (roundKeys (take keySize key)) iv (splitBlocks (pkcsPad (cString data)))))"
  using assms by (simp add: encryptAES_def AES_BSIZE_def)

lemma decrypt_cipher:
  assumes "length iv = 16"
  shows "pkcsUnpad (concat (cbcDecrypt rk iv
           (splitBlocks (concat (cbcEncrypt rk iv (splitBlocks (pkcsPad plain))))))) = Inr plain"
proof -
  let ?ps = "splitBlocks (pkcsPad plain)"
  have m: "length (pkcsPad plain) mod 16 = 0" by (simp add: length_pkcsPad)
  have ps: "\<forall>p \<in> set ?ps. length p = 16" using splitBlocks_lengths [OF m] by blast
  have "splitBlocks (concat (cbcEncrypt rk iv ?ps)) = cbcEncrypt rk iv ?ps"
    by (intro splitBlocks_concat) (blast dest: cbcEncrypt_blocks)
  moreover have "cbcDecrypt rk iv (cbcEncrypt rk iv ?ps) = ?ps"
    using assms ps by (rule cbcDecrypt_cbcEncrypt)
  ultimately show ?thesis by (simp add: concat_splitBlocks pkcsUnpad_pkcsPad)
qed

lemma decryptAES_valid:
  assumes "validKeySize keySize" "keySize \<le> length key" "length iv = 16"
    and "cipher \<noteq> []" "length cipher mod 16 = 0"
  shows "decryptAES cipher key keySize iv =
         pkcsUnpad (concat (cbcDecrypt (roundKeys (take keySize key)) iv (splitBlocks cipher)))"
  using assms by (simp add: decryptAES_def AES_BSIZE_def)

lemma aesRoundTrip_cString:
  assumes "validKeySize keySize" "keySize \<le> length key" "length iv = 16"
  shows "aesRoundTrip data key keySize iv = Inr (cString data)"
proof -
  let ?rk = "roundKeys (take keySize key)"
  let ?c = "concat (cbcEncrypt ?rk iv (splitBlocks (pkcsPad (cString data))))"
  have e: "encryptAES data key keySize iv = Inr ?c" using assms by (rule encryptAES_valid)
  have l: "length ?c = (length (cString data) div 16 + 1) * 16" by (rule length_cipher)
  have ne: "?c \<noteq> []"
  proof
    assume "?c = []"
    then have "length ?c = 0" by (simp only: list.size)
    with l show False by simp
  qed
  have m: "length ?c mod 16 = 0" unfolding l by simp
  have "decryptAES ?c key keySize iv = pkcsUnpad (concat (cbcDecrypt ?rk iv (splitBlocks ?c)))"
    using assms ne m by (rule decryptAES_valid)
  also have "\<dots> = Inr (cString data)" using assms(3) by (rule decrypt_cipher)
  finally show ?thesis by (simp add: aesRoundTrip_def e)
qed

section \<open>Properties of the AES operations\<close>

lemma validKeySize_length:
  "length key = 16 \<or> length key = 24 \<or> length key = 32 \<Longrightarrow> validKeySize (length key)"
  by (simp add: validKeySize_def)

text \<open>
  C1 (amended).  For every key of 16, 24 or 32 bytes and every 16-byte IV,
  \<open>decryptAES (encryptAES data key iv) key iv\<close> returns the bytes of \<open>data\<close> before its first
  zero byte, since \<open>encryptAES\<close> receives \<open>data\<close> as a NUL-terminated \<^verbatim>\<open>const char*\<close>; for
  every \<open>data\<close> containing no zero byte it returns \<open>data\<close>.
\<close>

theorem aes_round_trip:
  assumes "length key = 16 \<or> length key = 24 \<or> length key = 32" and "length iv = 16"
  shows "aesRoundTrip data key (length key) iv = Inr (cString data)
       \<and> (0 \<notin> set data \<longrightarrow> aesRoundTrip data key (length key) iv = Inr data)"
proof -
  have v: "validKeySize (length key)" using assms(1) by (rule validKeySize_length)
  have "aesRoundTrip data key (length key) iv = Inr (cString data)"
    using v _ assms(2) by (rule aesRoundTrip_cString) simp
  then show ?thesis by (simp add: cString_no_zero)
qed

theorem aes_round_trip_witness:
  "(length (replicate 16 (0 :: byte)) = 16 \<or> length (replicate 16 (0 :: byte)) = 24
      \<or> length (replicate 16 (0 :: byte)) = 32)
   \<and> length (replicate 16 (0 :: byte)) = 16
   \<and> 0 \<notin> set [104, 101, 108, 108, 111 :: byte]
   \<and> aesRoundTrip [104, 101, 108, 108, 111] (replicate 16 0) (length (replicate 16 (0 :: byte)))
         (replicate 16 0) = Inr [104, 101, 108, 108, 111]"
proof -
  have k: "length (replicate 16 (0 :: byte)) = 16 \<or> length (replicate 16 (0 :: byte)) = 24
      \<or> length (replicate 16 (0 :: byte)) = 32" by simp
  have i: "length (replicate 16 (0 :: byte)) = 16" by simp
  have z: "0 \<notin> set [104, 101, 108, 108, 111 :: byte]" by simp
  show ?thesis
    using k i z aes_round_trip [OF k i, of "[104, 101, 108, 108, 111]"] by blast
qed

text \<open>The three bytes \<open>a, NUL, b\<close> come back as the single byte \<open>a\<close>.\<close>

theorem aes_round_trip_counterexample:
  "aesRoundTrip [97, 0, 98] (replicate 16 0) 16 (replicate 16 0) = Inr [97]
   \<and> aesRoundTrip [97, 0, 98] (replicate 16 0) 16 (replicate 16 0) \<noteq> Inr [97, 0, 98]"
proof -
  have "aesRoundTrip [97, 0, 98] (replicate 16 0) 16 (replicate 16 0) = Inr (cString [97, 0, 98])"
    by (rule aesRoundTrip_cString) (simp_all add: validKeySize_def)
  then show ?thesis by (simp add: cString_def)
qed

lemma expectedAESCipherLength_of_nat:
  assumes "n < 2 ^ LENGTH('a::len)" and "4 < LENGTH('a)"
  shows "expectedAESCipherLength (of_nat n :: 'a word) = of_nat ((n div 16 + 1) * 16)"
proof -
  have "(2::nat) ^ 4 < 2 ^ LENGTH('a)" using assms(2) by (rule power_strict_increasing) simp
  then have s: "unat (16 :: 'a word) = 16" by (simp add: take_bit_nat_eq_self)
  have n: "unat (of_nat n :: 'a word) = n" using assms(1) by (simp add: unat_of_nat)
  have "n div 16 < 2 ^ LENGTH('a)" using assms(1) by (simp add: div_le_dividend le_less_trans)
  then have "unat (of_nat (n div 16) :: 'a word) = n div 16" by (simp add: unat_of_nat)
  moreover have "unat ((of_nat n :: 'a word) div 16) = n div 16"
    unfolding unat_div s n ..
  ultimately have "(of_nat n :: 'a word) div 16 = of_nat (n div 16)"
    by (simp add: word_unat_eq_iff)
  then show ?thesis by (simp add: expectedAESCipherLength_def AES_BSIZE_def)
qed

text \<open>
  C4 (amended).  For every \<open>data\<close> of length \<open>n\<close> containing no zero byte (\<open>n\<close> a
  \<^verbatim>\<open>std::size_t\<close> value), every key of 16, 24 or 32 bytes and every 16-byte IV,
  \<open>encryptAES\<close> succeeds and the ciphertext has \<open>expectedAESCipherLength n = (n div 16 + 1) * 16\<close>
  bytes: longer than the data, a full block longer when \<open>n\<close> is a multiple of 16, and 16
  bytes for 5 bytes of data.
\<close>

theorem encryptAES_length:
  assumes "length key = 16 \<or> length key = 24 \<or> length key = 32" and "length iv = 16"
    and "0 \<notin> set data"
    and "length data < 2 ^ LENGTH('a::len)" and "4 < LENGTH('a)"
  shows "\<exists>cipher. encryptAES data key (length key) iv = Inr cipher
       \<and> (of_nat (length cipher) :: 'a word) = expectedAESCipherLength (of_nat (length data))
       \<and> length cipher = (length data div 16 + 1) * 16
       \<and> length data < length cipher
       \<and> (length data mod 16 = 0 \<longrightarrow> length cipher = length data + 16)
       \<and> (length data = 5 \<longrightarrow> length cipher = 16)"
proof -
  let ?c = "concat (cbcEncrypt (roundKeys (take (length key) key)) iv
              (splitBlocks (pkcsPad (cString data))))"
  have v: "validKeySize (length key)" using assms(1) by (rule validKeySize_length)
  have e: "encryptAES data key (length key) iv = Inr ?c"
    using v _ assms(2) by (rule encryptAES_valid) simp
  have "length ?c = (length (cString data) div 16 + 1) * 16" by (rule length_cipher)
  then have l: "length ?c = (length data div 16 + 1) * 16"
    using assms(3) by (simp add: cString_no_zero)
  have w: "(of_nat (length ?c) :: 'a word) = expectedAESCipherLength (of_nat (length data))"
    unfolding l using assms(4,5) by (rule expectedAESCipherLength_of_nat [symmetric])
  have g: "length data < (length data div 16 + 1) * 16"
    using div_mult_mod_eq [of "length data" 16] by simp
  have m: "(length data div 16 + 1) * 16 = length data + 16" if "length data mod 16 = 0"
    using that div_mult_mod_eq [of "length data" 16] by simp
  show ?thesis
    using e w l g m by (intro exI [of _ ?c]) simp
qed

theorem encryptAES_length_witness:
  "(length (replicate 16 (0 :: byte)) = 16 \<or> length (replicate 16 (0 :: byte)) = 24
      \<or> length (replicate 16 (0 :: byte)) = 32)
   \<and> length (replicate 16 (0 :: byte)) = 16
   \<and> 0 \<notin> set [104, 101, 108, 108, 111 :: byte]
   \<and> length [104, 101, 108, 108, 111 :: byte] < 2 ^ LENGTH(64) \<and> 4 < LENGTH(64)
   \<and> length [104, 101, 108, 108, 111 :: byte] = 5
   \<and> (\<exists>cipher. encryptAES [104, 101, 108, 108, 111] (replicate 16 0)
           (length (replicate 16 (0 :: byte))) (replicate 16 0) = Inr cipher
         \<and> length cipher = 16)"
proof -
  have k: "length (replicate 16 (0 :: byte)) = 16 \<or> length (replicate 16 (0 :: byte)) = 24
      \<or> length (replicate 16 (0 :: byte)) = 32" by simp
  have i: "length (replicate 16 (0 :: byte)) = 16" by simp
  have z: "0 \<notin> set [104, 101, 108, 108, 111 :: byte]" by simp
  have n: "length [104, 101, 108, 108, 111 :: byte] < 2 ^ LENGTH(64)" by simp
  have w: "4 < LENGTH(64)" by simp
  have f: "length [104, 101, 108, 108, 111 :: byte] = 5" by simp
  show ?thesis
    using k i z n w f encryptAES_length [OF k i z n w] by blast
qed

text \<open>
  Seventeen bytes of data with a zero byte in second place: the ciphertext has 16 bytes,
  \<open>expectedAESCipherLength 17\<close> is 32.
\<close>

theorem encryptAES_length_counterexample:
  "map_sum id length (encryptAES (97 # 0 # replicate 15 98) (replicate 16 0) 16 (replicate 16 0))
     = Inr 16
   \<and> length (97 # 0 # replicate 15 (98 :: byte)) = 17
   \<and> expectedAESCipherLength (17 :: 64 word) = 32"
proof -
  have "encryptAES (97 # 0 # replicate 15 98) (replicate 16 0) 16 (replicate 16 0) =
        Inr (concat (cbcEncrypt (roundKeys (take 16 (replicate 16 0))) (replicate 16 0)
               (splitBlocks (pkcsPad (cString (97 # 0 # replicate 15 98))))))"
    by (rule encryptAES_valid) (simp_all add: validKeySize_def)
  moreover have "length (concat (cbcEncrypt (roundKeys (take 16 (replicate 16 0))) (replicate 16 0)
               (splitBlocks (pkcsPad (cString (97 # 0 # replicate 15 98)))))) =
        (length (cString (97 # 0 # replicate 15 98)) div 16 + 1) * 16"
    by (rule length_cipher)
  moreover have "cString (97 # 0 # replicate 15 98) = [97]" by (simp add: cString_def)
  ultimately show ?thesis
    by (simp add: expectedAESCipherLength_def AES_BSIZE_def)
qed

text \<open>
  C8.  The hex-key overload passes \<open>buffer.c_str()\<close> to the primitive, which reads a
  NUL-terminated string: for every buffer the result is that of the primitive applied to
  the longest prefix of the buffer without a zero byte, with the key \<open>hexToString hexKey\<close>
  and the key size \<open>length hexKey div 2\<close>; whatever follows a zero byte in the buffer is
  dropped without an error.
\<close>

theorem encryptAES_hex_truncates:
  "encryptAES_hex buffer hexKey iv =
     (case hexToString hexKey of
        Inl e \<Rightarrow> Inl e
      | Inr key \<Rightarrow> encryptAES (takeWhile (\<lambda>b. b \<noteq> 0) buffer) key (length hexKey div 2) iv)
   \<and> encryptAES_hex (pre @ 0 # post) hexKey iv = encryptAES_hex (takeWhile (\<lambda>b. b \<noteq> 0) pre) hexKey iv"
proof -
  have "takeWhile (\<lambda>b. b \<noteq> 0) (takeWhile (\<lambda>b. b \<noteq> (0 :: byte)) pre) = takeWhile (\<lambda>b. b \<noteq> 0) pre"
    by simp
  then show ?thesis
    by (simp only: encryptAES_hex_eq takeWhile_cut)
qed

theorem encryptAES_hex_truncates_witness:
  "encryptAES_hex [97, 0, 98] (replicate 32 (CHR ''0'')) (replicate 16 0) =
     encryptAES [97] (replicate 16 0) 16 (replicate 16 0)
   \<and> encryptAES_hex ([97] @ 0 # [98]) (replicate 32 (CHR ''0'')) (replicate 16 0) =
     encryptAES_hex [97] (replicate 32 (CHR ''0'')) (replicate 16 0)"
proof -
  have h: "hexToString (replicate 32 (CHR ''0'')) = Inr (replicate 16 0)"
    by (simp add: numeral_eq_Suc hexDigit_def)
  show ?thesis
    using encryptAES_hex_truncates [of "[97, 0, 98]" "replicate 32 (CHR ''0'')" "replicate 16 0" "[]" "[]"]
      encryptAES_hex_truncates [of "[]" "replicate 32 (CHR ''0'')" "replicate 16 0" "[97]" "[98]"]
    by (simp add: h)
qed


section \<open>Codec round trips\<close>

declare decimal.simps [simp del]

subsection \<open>base64\<close>

lemma base64_alphabet_check:
  "list_all (\<lambda>(n, c). base64Index c = Some n \<and> c \<noteq> CHR ''='' \<and> c \<noteq> DATA_DELIMITER)
     (enumerate 0 base64Alphabet)"
  by (simp add: base64Alphabet_def base64Index_def DATA_DELIMITER_def)

lemma length_base64Alphabet: "length base64Alphabet = 64"
  by (simp add: base64Alphabet_def)

lemma base64Alphabet_nth:
  assumes "n < 64"
  shows "base64Index (base64Alphabet ! n) = Some n \<and> base64Alphabet ! n \<noteq> CHR ''=''
       \<and> base64Alphabet ! n \<noteq> DATA_DELIMITER"
proof -
  have "(n, base64Alphabet ! n) \<in> set (enumerate 0 base64Alphabet)"
    using assms by (simp add: in_set_enumerate_eq length_base64Alphabet)
  with base64_alphabet_check show ?thesis unfolding list_all_iff by blast
qed

lemma m63: "(63 :: byte) = mask 6" and m3: "(3 :: byte) = mask 2" and m15: "(15 :: byte) = mask 4"
  by (simp_all add: mask_eq_exp_minus_1)

lemma unat_and_63: "unat (v AND 63 :: byte) < 64"
proof -
  have "take_bit 6 (unat v) < 2 ^ 6" by (rule take_bit_nat_less_exp)
  then have "unat (take_bit 6 v) < 64" by (simp add: unsigned_take_bit_eq)
  then show ?thesis by (simp add: m63 take_bit_eq_mask)
qed

lemma bit_index_cases:
  assumes "n < 8"
  obtains "n = 0" | "n = 1" | "n = 2" | "n = 3" | "n = 4" | "n = 5" | "n = 6" | "n = (7::nat)"
  using assms by arith

lemma bits_a:
  "push_bit 2 (drop_bit 2 a AND 63) OR drop_bit 4 ((push_bit 4 (a AND 3) OR drop_bit 4 b) AND 63) = a"
  for a b :: byte
  unfolding m63 m3
proof (rule bit_eqI)
  fix n
  assume "possible_bit TYPE(byte) n"
  then have "n < 8" by simp
  then show "bit (push_bit 2 (drop_bit 2 a AND mask 6)
                  OR drop_bit 4 ((push_bit 4 (a AND mask 2) OR drop_bit 4 b) AND mask 6)) n = bit a n"
    by (cases n rule: bit_index_cases) (simp_all add: bit_simps)
qed

lemma base64Char_index: "base64Index (base64Char v) = Some (unat (v AND 63))"
  using base64Alphabet_nth [OF unat_and_63 [of v]] by (simp add: base64Char_def)

lemma base64Char_not_pad: "base64Char v \<noteq> CHR ''=''"
  using base64Alphabet_nth [OF unat_and_63 [of v]] by (simp add: base64Char_def)

lemma base64Char_not_delimiter: "base64Char v \<noteq> DATA_DELIMITER"
  using base64Alphabet_nth [OF unat_and_63 [of v]] by (simp add: base64Char_def)

lemma bits_a1:
  "push_bit 2 (drop_bit 2 a AND 63) OR drop_bit 4 (push_bit 4 (a AND 3) AND 63) = a"
  for a :: byte
  unfolding m63 m3
proof (rule bit_eqI)
  fix n
  assume "possible_bit TYPE(byte) n"
  then have "n < 8" by simp
  then show "bit (push_bit 2 (drop_bit 2 a AND mask 6)
                  OR drop_bit 4 (push_bit 4 (a AND mask 2) AND mask 6)) n = bit a n"
    by (cases n rule: bit_index_cases) (simp_all add: bit_simps)
qed

lemma bits_b:
  "push_bit 4 ((push_bit 4 (a AND 3) OR drop_bit 4 b) AND 63)
     OR drop_bit 2 ((push_bit 2 (b AND 15) OR drop_bit 6 c) AND 63) = b"
  for a b c :: byte
  unfolding m63 m3 m15
proof (rule bit_eqI)
  fix n
  assume "possible_bit TYPE(byte) n"
  then have "n < 8" by simp
  then show "bit (push_bit 4 ((push_bit 4 (a AND mask 2) OR drop_bit 4 b) AND mask 6)
                  OR drop_bit 2 ((push_bit 2 (b AND mask 4) OR drop_bit 6 c) AND mask 6)) n = bit b n"
    by (cases n rule: bit_index_cases) (simp_all add: bit_simps)
qed

lemma bits_b2:
  "push_bit 4 ((push_bit 4 (a AND 3) OR drop_bit 4 b) AND 63)
     OR drop_bit 2 (push_bit 2 (b AND 15) AND 63) = b"
  for a b :: byte
  unfolding m63 m3 m15
proof (rule bit_eqI)
  fix n
  assume "possible_bit TYPE(byte) n"
  then have "n < 8" by simp
  then show "bit (push_bit 4 ((push_bit 4 (a AND mask 2) OR drop_bit 4 b) AND mask 6)
                  OR drop_bit 2 (push_bit 2 (b AND mask 4) AND mask 6)) n = bit b n"
    by (cases n rule: bit_index_cases) (simp_all add: bit_simps)
qed

lemma bits_c:
  "push_bit 6 ((push_bit 2 (b AND 15) OR drop_bit 6 c) AND 63) OR ((c AND 63) AND 63) = c"
  for b c :: byte
  unfolding m63 m15
proof (rule bit_eqI)
  fix n
  assume "possible_bit TYPE(byte) n"
  then have "n < 8" by simp
  then show "bit (push_bit 6 ((push_bit 2 (b AND mask 4) OR drop_bit 6 c) AND mask 6)
                  OR ((c AND mask 6) AND mask 6)) n = bit c n"
    by (cases n rule: bit_index_cases) (simp_all add: bit_simps)
qed

lemma sextet_of_nat: "(of_nat (unat (v AND 63 :: byte)) :: byte) = v AND 63"
  by simp

lemma pad_conds: "((0::nat) = 2) = False" "((0::nat) = 1) = False" "((1::nat) = 2) = False"
  by simp_all

lemmas base64Group_unfold =
  base64Group_def base64Char_index option.case Let_def sextet_of_nat pad_conds if_False if_True
  simp_thms

lemma base64Group_full:
  "base64Group (base64Char (drop_bit 2 a)) (base64Char (push_bit 4 (a AND 3) OR drop_bit 4 b))
     (base64Char (push_bit 2 (b AND 15) OR drop_bit 6 c)) (base64Char (c AND 63)) 0 = Inr [a, b, c]"
  by (simp only: base64Group_unfold bits_a bits_b bits_c)

lemma base64Group_one:
  "base64Group (base64Char (drop_bit 2 a)) (base64Char (push_bit 4 (a AND 3))) c2 c3 2 = Inr [a]"
  by (simp only: base64Group_unfold bits_a1)

lemma base64Group_two:
  "base64Group (base64Char (drop_bit 2 a)) (base64Char (push_bit 4 (a AND 3) OR drop_bit 4 b))
     (base64Char (push_bit 2 (b AND 15))) c3 1 = Inr [a, b]"
  by (simp only: base64Group_unfold bits_a bits_b2)

lemma base64Decode_group:
  assumes "c3 \<noteq> CHR ''=''" and "base64Group c0 c1 c2 c3 0 = Inr bytes"
    and "base64Decode rest = Inr others"
  shows "base64Decode (c0 # c1 # c2 # c3 # rest) = Inr (bytes @ others)"
  using assms by simp

lemma base64Decode_last1:
  assumes "base64Group c0 c1 (CHR ''='') (CHR ''='') 2 = Inr bytes"
  shows "base64Decode [c0, c1, CHR ''='', CHR ''=''] = Inr bytes"
  using assms by simp

lemma base64Decode_last2:
  assumes "c2 \<noteq> CHR ''=''" and "base64Group c0 c1 c2 (CHR ''='') 1 = Inr bytes"
  shows "base64Decode [c0, c1, c2, CHR ''=''] = Inr bytes"
  using assms by simp

lemma base64Decode_base64Encode: "base64Decode (base64Encode x) = Inr x"
proof (induction x rule: base64Encode.induct)
  case 1
  show ?case by simp
next
  case (2 a)
  have "base64Decode [base64Char (drop_bit 2 a), base64Char (push_bit 4 (a AND 3)),
          CHR ''='', CHR ''=''] = Inr [a]"
    by (rule base64Decode_last1) (rule base64Group_one)
  then show ?case by (simp only: base64Encode.simps)
next
  case (3 a b)
  have "base64Decode [base64Char (drop_bit 2 a), base64Char (push_bit 4 (a AND 3) OR drop_bit 4 b),
          base64Char (push_bit 2 (b AND 15)), CHR ''=''] = Inr [a, b]"
    by (rule base64Decode_last2) (rule base64Char_not_pad, rule base64Group_two)
  then show ?case by (simp only: base64Encode.simps)
next
  case (4 a b c rest)
  have "base64Decode (base64Char (drop_bit 2 a) # base64Char (push_bit 4 (a AND 3) OR drop_bit 4 b)
          # base64Char (push_bit 2 (b AND 15) OR drop_bit 6 c) # base64Char (c AND 63)
          # base64Encode rest) = Inr ([a, b, c] @ rest)"
    by (rule base64Decode_group) (rule base64Char_not_pad, rule base64Group_full, rule 4)
  then show ?case by (simp only: base64Encode.simps append.simps)
qed

lemma base64Encode_no_delimiter: "DATA_DELIMITER \<notin> set (base64Encode x)"
proof (induction x rule: base64Encode.induct)
  case 1
  show ?case by simp
next
  case (2 a)
  show ?case
    using base64Char_not_delimiter [of "drop_bit 2 a"]
      base64Char_not_delimiter [of "push_bit 4 (a AND 3)"]
    by (simp only: base64Encode.simps set_simps insert_iff empty_iff)
       (auto simp: DATA_DELIMITER_def)
next
  case (3 a b)
  show ?case
    using base64Char_not_delimiter [of "drop_bit 2 a"]
      base64Char_not_delimiter [of "push_bit 4 (a AND 3) OR drop_bit 4 b"]
      base64Char_not_delimiter [of "push_bit 2 (b AND 15)"]
    by (simp only: base64Encode.simps set_simps insert_iff empty_iff)
       (auto simp: DATA_DELIMITER_def)
next
  case (4 a b c rest)
  then show ?case
    using base64Char_not_delimiter [of "drop_bit 2 a"]
      base64Char_not_delimiter [of "push_bit 4 (a AND 3) OR drop_bit 4 b"]
      base64Char_not_delimiter [of "push_bit 2 (b AND 15) OR drop_bit 6 c"]
      base64Char_not_delimiter [of "c AND 63"]
    by (simp only: base64Encode.simps set_simps set_append insert_iff empty_iff Un_iff)
       (auto simp: DATA_DELIMITER_def)
qed

subsection \<open>Hexadecimal and decimal text\<close>

lemma hex_chars_check:
  "list_all (\<lambda>(n, c). hexDigit c = Some n \<and> c \<noteq> DATA_DELIMITER) (enumerate 0 hexChars)"
  by (simp add: hexChars_def hexDigit_def DATA_DELIMITER_def)

lemma hexChars_nth:
  assumes "n < 16"
  shows "hexDigit (hexChars ! n) = Some n \<and> hexChars ! n \<noteq> DATA_DELIMITER"
proof -
  have "length hexChars = 16" by (simp add: hexChars_def)
  then have "(n, hexChars ! n) \<in> set (enumerate 0 hexChars)"
    using assms by (simp add: in_set_enumerate_eq)
  with hex_chars_check show ?thesis unfolding list_all_iff by blast
qed

lemma unat_byte_div_16: "unat (b :: byte) div 16 < 16"
proof -
  have "unat b < 256" using unsigned_less [of b] by simp
  then show ?thesis by simp
qed

lemma hexToString_hexOfByte:
  assumes "hexToString rest = Inr bytes"
  shows "hexToString (hexOfByte b @ rest) = Inr (b # bytes)"
proof -
  have h: "hexDigit (hexChars ! (unat b div 16)) = Some (unat b div 16)"
    using hexChars_nth [OF unat_byte_div_16] by simp
  have l: "hexDigit (hexChars ! (unat b mod 16)) = Some (unat b mod 16)"
    using hexChars_nth [of "unat b mod 16"] by simp
  have "(of_nat (16 * (unat b div 16) + unat b mod 16) :: byte) = b" by simp
  then show ?thesis using assms by (simp add: hexOfByte_def h l)
qed

lemma hexToString_stringToHex: "hexToString (stringToHex raw) = Inr raw"
proof (induction raw)
  case Nil
  show ?case by (simp add: stringToHex_def)
next
  case (Cons b raw)
  have "stringToHex (b # raw) = hexOfByte b @ stringToHex raw" by (simp add: stringToHex_def)
  then show ?case using Cons by (simp only: hexToString_hexOfByte)
qed

lemma hexOfByte_no_delimiter: "DATA_DELIMITER \<notin> set (hexOfByte b)"
  using hexChars_nth [OF unat_byte_div_16 [of b]] hexChars_nth [of "unat b mod 16"]
  by (auto simp: hexOfByte_def)

lemma stringToHex_no_delimiter: "DATA_DELIMITER \<notin> set (stringToHex raw)"
  by (induction raw) (simp_all add: stringToHex_def hexOfByte_no_delimiter)

lemma digit_chars_check:
  "list_all (\<lambda>(n, c). digitValue c = Some n \<and> c \<noteq> DATA_DELIMITER) (enumerate 0 decimalDigits)"
  by (simp add: decimalDigits_def digitValue_def DATA_DELIMITER_def)

lemma digitChar_props:
  assumes "d < 10"
  shows "digitValue (digitChar d) = Some d \<and> digitChar d \<noteq> DATA_DELIMITER"
proof -
  have "length decimalDigits = 10" by (simp add: decimalDigits_def)
  then have "(d, decimalDigits ! d) \<in> set (enumerate 0 decimalDigits)"
    using assms by (simp add: in_set_enumerate_eq)
  with digit_chars_check show ?thesis unfolding list_all_iff digitChar_def by blast
qed

lemma parseDigits_append:
  "parseDigits acc (s @ t) =
     (case parseDigits acc s of None \<Rightarrow> None | Some v \<Rightarrow> parseDigits v t)"
  by (induction s arbitrary: acc) (simp_all split: option.splits)

lemma parseDigits_decimal: "parseDigits 0 (decimal n) = Some n"
proof (induction n rule: decimal.induct)
  case (1 n)
  show ?case
  proof (cases "n < 10")
    case True
    then show ?thesis
      using digitChar_props [of n] by (subst decimal.simps) simp
  next
    case False
    then have ih: "parseDigits 0 (decimal (n div 10)) = Some (n div 10)" by (rule 1)
    have d: "digitValue (digitChar (n mod 10)) = Some (n mod 10)"
      using digitChar_props [of "n mod 10"] by simp
    have "decimal n = decimal (n div 10) @ [digitChar (n mod 10)]"
      using False by (subst decimal.simps) simp
    then show ?thesis by (simp add: parseDigits_append ih d)
  qed
qed

lemma decimal_nonempty: "decimal n \<noteq> []"
  by (subst decimal.simps) simp

lemma parseDecimal_decimal: "parseDecimal (decimal n) = Some n"
  by (simp add: parseDecimal_def decimal_nonempty parseDigits_decimal)

lemma decimal_no_delimiter: "DATA_DELIMITER \<notin> set (decimal n)"
proof (induction n rule: decimal.induct)
  case (1 n)
  show ?case
  proof (cases "n < 10")
    case True
    then show ?thesis
      using digitChar_props [of n] by (subst decimal.simps) auto
  next
    case False
    then have "DATA_DELIMITER \<notin> set (decimal (n div 10))" by (rule 1)
    moreover have "digitChar (n mod 10) \<noteq> DATA_DELIMITER"
      using digitChar_props [of "n mod 10"] by simp
    ultimately show ?thesis using False by (subst decimal.simps) auto
  qed
qed

lemma parseEnvelope_field:
  "DATA_DELIMITER \<notin> set f \<Longrightarrow>
   parseEnvelope st field env (f @ rest) = parseEnvelope st (field @ f) env rest"
  by (induction f arbitrary: field) auto

lemma parseEnvelope_step:
  "DATA_DELIMITER \<notin> set f \<Longrightarrow>
   parseEnvelope st [] env (f @ DATA_DELIMITER # rest) =
     (case st of
        ExpectLength \<Rightarrow> parseEnvelope ExpectIV [] (env\<lparr>envLength := f\<rparr>) rest
      | ExpectIV \<Rightarrow> parseEnvelope ExpectClientIdOrPayload [] (env\<lparr>envIV := f\<rparr>) rest
      | ExpectClientIdOrPayload \<Rightarrow> parseEnvelope ExpectPayload [] (env\<lparr>envClientId := f\<rparr>) rest
      | _ \<Rightarrow> Inl ParseError)"
  by (simp add: parseEnvelope_field)

lemma parseEnvelope_end:
  "DATA_DELIMITER \<notin> set f \<Longrightarrow>
   parseEnvelope st [] env f =
     (case st of
        ExpectClientIdOrPayload \<Rightarrow> Inr (env\<lparr>envPayload := f\<rparr>)
      | ExpectPayload \<Rightarrow> Inr (env\<lparr>envPayload := f\<rparr>)
      | _ \<Rightarrow> Inl ParseError)"
  using parseEnvelope_field [of f st "[]" env "[]"] by simp

lemma parseEnvelope_four:
  assumes "DATA_DELIMITER \<notin> set len" "DATA_DELIMITER \<notin> set ivHex"
    "DATA_DELIMITER \<notin> set cid" "DATA_DELIMITER \<notin> set payload"
  shows "parseEnvelope ExpectLength [] emptyEnvelope
           (len @ [DATA_DELIMITER] @ ivHex @ [DATA_DELIMITER] @ (cid @ [DATA_DELIMITER]) @ payload) =
         Inr \<lparr>envLength = len, envIV = ivHex, envClientId = cid, envPayload = payload\<rparr>"
  using assms by (simp add: parseEnvelope_step parseEnvelope_end emptyEnvelope_def)

lemma parseEnvelope_three:
  assumes "DATA_DELIMITER \<notin> set len" "DATA_DELIMITER \<notin> set ivHex"
    "DATA_DELIMITER \<notin> set payload"
  shows "parseEnvelope ExpectLength [] emptyEnvelope
           (len @ [DATA_DELIMITER] @ ivHex @ [DATA_DELIMITER] @ [] @ payload) =
         Inr \<lparr>envLength = len, envIV = ivHex, envClientId = [], envPayload = payload\<rparr>"
  using assms by (simp add: parseEnvelope_step parseEnvelope_end emptyEnvelope_def)

section \<open>The envelope\<close>

subsection \<open>Length of the envelope\<close>

lemma length_hexOfByte: "length (hexOfByte b) = 2"
  by (simp add: hexOfByte_def)

lemma length_stringToHex: "length (stringToHex raw) = 2 * length raw"
  by (induction raw) (simp_all add: stringToHex_def length_hexOfByte)

lemma cText_no_zero: "CHR 0x00 \<notin> set clientId \<Longrightarrow> cText clientId = clientId"
  by (auto simp: cText_def takeWhile_eq_all_conv)

lemma prepareData_valid:
  assumes "hexToString hexKey = Inr key" and "validKeySize (length key)" and "length iv = 16"
  shows "prepareData iv data hexKey clientId =
         Inr (decimal (length (concat (cbcEncrypt (roundKeys key) iv (splitBlocks (pkcsPad (cString data))))))
              @ [DATA_DELIMITER] @ stringToHex iv @ [DATA_DELIMITER]
              @ (if cText clientId = [] then [] else cText clientId @ [DATA_DELIMITER])
              @ base64Encode (concat (cbcEncrypt (roundKeys key) iv (splitBlocks (pkcsPad (cString data))))))"
proof -
  have "encryptAES data key (length key) iv =
        Inr (concat (cbcEncrypt (roundKeys (take (length key) key)) iv (splitBlocks (pkcsPad (cString data)))))"
    using assms(2) _ assms(3) by (rule encryptAES_valid) simp
  then show ?thesis using assms(1) by (simp add: prepareData_def)
qed

lemma length_prepareData:
  assumes "hexToString hexKey = Inr key" and "validKeySize (length key)" and "length iv = 16"
  shows "\<exists>env. prepareData iv data hexKey clientId = Inr env
       \<and> length env = length (decimal ((length (cString data) div 16 + 1) * 16)) + 1 + 32 + 1
           + (if cText clientId = [] then 0 else length (cText clientId) + 1)
           + 4 * (((length (cString data) div 16 + 1) * 16 + 2) div 3)"
proof -
  let ?c = "concat (cbcEncrypt (roundKeys key) iv (splitBlocks (pkcsPad (cString data))))"
  have l: "length ?c = (length (cString data) div 16 + 1) * 16" by (rule length_cipher)
  show ?thesis
    unfolding prepareData_valid [OF assms]
    by (simp add: l length_stringToHex length_base64Encode assms(3))
qed

lemma unat_expectedDataSize:
  fixes n m :: nat
  defines "L \<equiv> (n div 16 + 1) * 16"
  assumes b: "4 * L + 3 < 2 ^ LENGTH('a::len)"
    and t: "length (decimal L) + 1 + 32 + 1 + (if m = 0 then 0 else m + 1) + 4 * ((L + 2) div 3)
            < 2 ^ LENGTH('a)"
  shows "unat (expectedDataSize (of_nat n :: 'a word) (of_nat m)) =
         length (decimal L) + 1 + 32 + 1 + (if m = 0 then 0 else m + 1) + 4 * ((L + 2) div 3)"
proof -
  let ?W = "(2::nat) ^ LENGTH('a)"
  have L16: "16 \<le> L" by (simp add: L_def)
  have LW: "L < ?W" using b by linarith
  have nL: "n < L" unfolding L_def using div_mult_mod_eq [of n 16] by simp
  have nW: "n < ?W" using nL LW by linarith
  have w4: "4 < LENGTH('a)"
  proof (rule ccontr)
    assume "\<not> 4 < LENGTH('a)"
    then have "LENGTH('a) \<le> 4" by simp
    then have "?W \<le> 2 ^ 4" by (intro power_increasing) simp_all
    with LW L16 show False by simp
  qed
  have e: "expectedAESCipherLength (of_nat n :: 'a word) = of_nat L"
    unfolding L_def using nW w4 by (rule expectedAESCipherLength_of_nat)
  have uL: "unat (of_nat L :: 'a word) = L" using LW by (simp add: unat_of_nat)
  have "4 * unat (of_nat L :: 'a word) + 3 < ?W" unfolding uL by (rule b)
  then have "unat (expectedBase64Length (of_nat L :: 'a word)) =
             ((4 * unat (of_nat L :: 'a word)) div 3 + 3) div 4 * 4"
    by (rule unat_expectedBase64Length)
  then have "unat (expectedBase64Length (of_nat L :: 'a word)) = 4 * ((L + 2) div 3)"
    unfolding uL by (simp only: base64_length_arith)
  then have "of_nat (unat (expectedBase64Length (of_nat L :: 'a word))) =
             (of_nat (4 * ((L + 2) div 3)) :: 'a word)"
    by (rule arg_cong)
  then have b64: "expectedBase64Length (of_nat L :: 'a word) = of_nat (4 * ((L + 2) div 3))"
    by simp
  have mW: "m < ?W" using t by (cases "m = 0") simp_all
  then have um: "unat (of_nat m :: 'a word) = m" by (simp add: unat_of_nat)
  have "(0 < (of_nat m :: 'a word)) = (0 < unat (of_nat m :: 'a word))"
    by (simp only: unat_gt_0 word_neq_0_conv)
  then have pos: "(0 < (of_nat m :: 'a word)) = (m \<noteq> 0)"
    unfolding um by simp
  have "expectedDataSize (of_nat n :: 'a word) (of_nat m) =
        of_nat (length (decimal L) + 1 + 32 + 1 + (if m = 0 then 0 else m + 1) + 4 * ((L + 2) div 3))"
    by (simp add: expectedDataSize_def e uL b64 pos Let_def)
  then show ?thesis using t by (simp only: unat_of_nat) simp
qed

subsection \<open>expectedDataSize\<close>

lemma hexToString_zero_key: "hexToString (replicate 32 (CHR ''0'')) = Inr (replicate 16 0)"
  by (simp add: numeral_eq_Suc hexDigit_def)

text \<open>
  C3 (amended).  For every plaintext and client id containing no zero byte, every valid
  hex key and 16-byte IV, and sizes for which the \<^verbatim>\<open>std::size_t\<close> computation of
  \<open>expectedDataSize\<close> does not wrap, \<open>prepareData\<close> returns an envelope whose length is exactly
  \<open>expectedDataSize plainSize clientIdSize\<close>: the digits of the cipher length, a delimiter,
  32 hex characters of IV, a delimiter, the client id and its delimiter when the client id
  is not empty, and the base64 text of \<open>expectedAESCipherLength plainSize\<close> bytes.
\<close>

theorem expectedDataSize_exact:
  fixes data iv key :: "byte list" and hexKey clientId :: string
  assumes "hexToString hexKey = Inr key"
    and "length key = 16 \<or> length key = 24 \<or> length key = 32"
    and "length iv = 16"
    and "0 \<notin> set data" and "CHR 0x00 \<notin> set clientId"
    and "4 * ((length data div 16 + 1) * 16) + 3 < 2 ^ LENGTH('a::len)"
    and "length (decimal ((length data div 16 + 1) * 16)) + 1 + 32 + 1
           + (if clientId = [] then 0 else length clientId + 1)
           + 4 * (((length data div 16 + 1) * 16 + 2) div 3) < 2 ^ LENGTH('a)"
  shows "\<exists>env. prepareData iv data hexKey clientId = Inr env
       \<and> length env =
           unat (expectedDataSize (of_nat (length data) :: 'a word) (of_nat (length clientId)))
       \<and> length env = length (decimal ((length data div 16 + 1) * 16)) + 1 + 32 + 1
           + (if clientId = [] then 0 else length clientId + 1)
           + 4 * (((length data div 16 + 1) * 16 + 2) div 3)"
proof -
  have v: "validKeySize (length key)" using assms(2) by (rule validKeySize_length)
  have d: "cString data = data" using assms(4) by (rule cString_no_zero)
  have c: "cText clientId = clientId" using assms(5) by (rule cText_no_zero)
  have m: "(if length clientId = 0 then 0 else length clientId + 1) =
           (if clientId = [] then 0 else length clientId + 1)" by simp
  have "unat (expectedDataSize (of_nat (length data) :: 'a word) (of_nat (length clientId))) =
        length (decimal ((length data div 16 + 1) * 16)) + 1 + 32 + 1
           + (if length clientId = 0 then 0 else length clientId + 1)
           + 4 * (((length data div 16 + 1) * 16 + 2) div 3)"
    using assms(6) assms(7) [folded m] by (rule unat_expectedDataSize)
  with length_prepareData [OF assms(1) v assms(3), of data clientId]
  show ?thesis unfolding d c m by auto
qed

theorem expectedDataSize_exact_witness:
  "hexToString (replicate 32 (CHR ''0'')) = Inr (replicate 16 0)
   \<and> (length (replicate 16 (0 :: byte)) = 16 \<or> length (replicate 16 (0 :: byte)) = 24
        \<or> length (replicate 16 (0 :: byte)) = 32)
   \<and> length (replicate 16 (0 :: byte)) = 16
   \<and> 0 \<notin> set [104, 101, 108, 108, 111 :: byte] \<and> CHR 0x00 \<notin> set ''client1''
   \<and> (\<exists>env. prepareData (replicate 16 0) [104, 101, 108, 108, 111] (replicate 32 (CHR ''0''))
               ''client1'' = Inr env
         \<and> length env = unat (expectedDataSize (of_nat (length [104, 101, 108, 108, 111 :: byte]) :: 64 word)
                                 (of_nat (length ''client1'')))
         \<and> length env = 68)"
proof -
  have k: "length (replicate 16 (0 :: byte)) = 16 \<or> length (replicate 16 (0 :: byte)) = 24
        \<or> length (replicate 16 (0 :: byte)) = 32" by simp
  have i: "length (replicate 16 (0 :: byte)) = 16" by simp
  have z: "0 \<notin> set [104, 101, 108, 108, 111 :: byte]" by simp
  have c: "CHR 0x00 \<notin> set ''client1''" by simp
  have d: "decimal 16 = ''16''" by (simp add: decimal.simps digitChar_def decimalDigits_def)
  have b: "4 * ((length [104, 101, 108, 108, 111 :: byte] div 16 + 1) * 16) + 3 < 2 ^ LENGTH(64)"
    by simp
  have t: "length (decimal ((length [104, 101, 108, 108, 111 :: byte] div 16 + 1) * 16)) + 1 + 32 + 1
           + (if ''client1'' = [] then 0 else length ''client1'' + 1)
           + 4 * (((length [104, 101, 108, 108, 111 :: byte] div 16 + 1) * 16 + 2) div 3)
           < 2 ^ LENGTH(64)"
    by (simp add: d)
  show ?thesis
    using hexToString_zero_key k i z c
      expectedDataSize_exact [OF hexToString_zero_key k i z c b t]
    by (simp add: d)
qed

text \<open>
  Seventeen bytes of plaintext with a zero byte in second place give an envelope of 68
  characters where \<open>expectedDataSize 17 7\<close> is 88.  With a 32-bit \<^verbatim>\<open>std::size_t\<close>, a plaintext
  of \<open>2 ^ 30 - 16\<close> bytes gives an envelope of 1431655812 characters where
  \<open>expectedDataSize\<close> wraps to 44.
\<close>

theorem expectedDataSize_exact_counterexample:
  "map_sum id length (prepareData (replicate 16 0) (97 # 0 # replicate 15 98)
       (replicate 32 (CHR ''0'')) ''client1'') = Inr 68
   \<and> expectedDataSize (of_nat (length (97 # 0 # replicate 15 (98 :: byte))) :: 64 word)
       (of_nat (length ''client1'')) = 88
   \<and> map_sum id length (prepareData (replicate 16 0) (replicate 1073741808 1)
       (replicate 32 (CHR ''0'')) '''') = Inr 1431655812
   \<and> expectedDataSize (of_nat (length (replicate 1073741808 (1 :: byte))) :: 32 word)
       (of_nat (length '''')) = 44"
proof -
  have v: "validKeySize (length (replicate 16 (0 :: byte)))" by (simp add: validKeySize_def)
  have i: "length (replicate 16 (0 :: byte)) = 16" by simp
  have d16: "decimal 16 = ''16''" by (simp add: decimal.simps digitChar_def decimalDigits_def)
  have d32: "decimal 32 = ''32''" by (simp add: decimal.simps digitChar_def decimalDigits_def)
  have dbig: "length (decimal 1073741824) = 10" by (simp add: decimal.simps)
  have c1: "cString (97 # 0 # replicate 15 (98 :: byte)) = [97]" by (simp add: cString_def)
  have c2: "cString (replicate 1073741808 (1 :: byte)) = replicate 1073741808 1"
    by (rule cString_no_zero) simp
  have t1: "cText ''client1'' = ''client1''" by (simp add: cText_def)
  have t2: "cText '''' = ''''" by (simp add: cText_def)
  have a: "map_sum id length (prepareData (replicate 16 0) (97 # 0 # replicate 15 98)
       (replicate 32 (CHR ''0'')) ''client1'') = Inr 68"
    using length_prepareData [OF hexToString_zero_key v i, of "97 # 0 # replicate 15 98" "''client1''"]
    unfolding c1 t1 by (auto simp: d16)
  have b: "map_sum id length (prepareData (replicate 16 0) (replicate 1073741808 1)
       (replicate 32 (CHR ''0'')) '''') = Inr 1431655812"
    using length_prepareData [OF hexToString_zero_key v i, of "replicate 1073741808 1" "''''"]
    unfolding c2 t2 by (auto simp: dbig)
  have e1: "expectedDataSize (of_nat (length (97 # 0 # replicate 15 (98 :: byte))) :: 64 word)
       (of_nat (length ''client1'')) = 88"
    by (simp add: expectedDataSize_def expectedAESCipherLength_def expectedBase64Length_def
        AES_BSIZE_def d32)
  have e2: "expectedDataSize (of_nat (length (replicate 1073741808 (1 :: byte))) :: 32 word)
       (of_nat (length '''')) = 44"
    by (simp add: expectedDataSize_def expectedAESCipherLength_def expectedBase64Length_def
        AES_BSIZE_def dbig)
  show ?thesis using a b e1 e2 by simp
qed

subsection \<open>Envelope round trip\<close>

lemma decryptAES_cipher:
  assumes "validKeySize (length key)" and "length iv = 16"
  shows "decryptAES (concat (cbcEncrypt (roundKeys key) iv (splitBlocks (pkcsPad (cString data)))))
           key (length key) iv = Inr (cString data)"
proof -
  have "aesRoundTrip data key (length key) iv = Inr (cString data)"
    using assms(1) _ assms(2) by (rule aesRoundTrip_cString) simp
  moreover have "encryptAES data key (length key) iv =
      Inr (concat (cbcEncrypt (roundKeys (take (length key) key)) iv
             (splitBlocks (pkcsPad (cString data)))))"
    using assms(1) _ assms(2) by (rule encryptAES_valid) simp
  ultimately show ?thesis by (simp add: aesRoundTrip_def)
qed

lemma decryptAES_text_envelope:
  assumes "hexToString hexKey = Inr key"
    and "DATA_DELIMITER \<notin> set cid"
  shows "decryptAES_text
           (decimal (length cipher) @ [DATA_DELIMITER] @ stringToHex iv @ [DATA_DELIMITER]
            @ (if cid = [] then [] else cid @ [DATA_DELIMITER]) @ base64Encode cipher)
           hexKey [] True False = decryptAES cipher key (length key) iv"
proof (cases "cid = []")
  case True
  have "parseEnvelope ExpectLength [] emptyEnvelope
          (decimal (length cipher) @ [DATA_DELIMITER] @ stringToHex iv @ [DATA_DELIMITER]
            @ [] @ base64Encode cipher) =
        Inr \<lparr>envLength = decimal (length cipher), envIV = stringToHex iv, envClientId = [],
             envPayload = base64Encode cipher\<rparr>"
    by (rule parseEnvelope_three)
       (rule decimal_no_delimiter, rule stringToHex_no_delimiter, rule base64Encode_no_delimiter)
  then show ?thesis
    using True assms(1)
    by (simp add: decryptAES_text_def decodePayload_def base64Decode_base64Encode
        parseDecimal_decimal hexToString_stringToHex)
next
  case False
  have "parseEnvelope ExpectLength [] emptyEnvelope
          (decimal (length cipher) @ [DATA_DELIMITER] @ stringToHex iv @ [DATA_DELIMITER]
            @ (cid @ [DATA_DELIMITER]) @ base64Encode cipher) =
        Inr \<lparr>envLength = decimal (length cipher), envIV = stringToHex iv, envClientId = cid,
             envPayload = base64Encode cipher\<rparr>"
    by (rule parseEnvelope_four)
       (rule decimal_no_delimiter, rule stringToHex_no_delimiter, rule assms(2),
        rule base64Encode_no_delimiter)
  then show ?thesis
    using False assms(1)
    by (simp add: decryptAES_text_def decodePayload_def base64Decode_base64Encode
        parseDecimal_decimal hexToString_stringToHex)
qed

lemma envelopeRoundTrip_cString:
  assumes "hexToString hexKey = Inr key" and "validKeySize (length key)" and "length iv = 16"
    and "DATA_DELIMITER \<notin> set (cText clientId)"
  shows "envelopeRoundTrip iv data hexKey clientId = Inr (cString data)"
  unfolding envelopeRoundTrip_def prepareData_valid [OF assms(1,2,3)] sum.case
  by (simp only: decryptAES_text_envelope [OF assms(1) assms(4)] decryptAES_cipher [OF assms(2,3)])

lemma client1_text: "cText ''client1'' = ''client1''" "DATA_DELIMITER \<notin> set (cText ''client1'')"
  by (simp_all add: cText_def DATA_DELIMITER_def)

text \<open>
  C2 (amended).  For every valid hex key and 16-byte IV, \<open>prepareData data hexKey "client1"\<close>
  is the colon-delimited text \<open><cipherLength>:<ivHex>:client1:<base64Payload>\<close>, and parsing
  and decrypting it with the same key returns the bytes of \<open>data\<close> before its first zero
  byte, since \<open>prepareData\<close> receives \<open>data\<close> as a NUL-terminated \<^verbatim>\<open>const char*\<close>; for every
  \<open>data\<close> containing no zero byte it returns \<open>data\<close>.
\<close>

theorem envelope_round_trip:
  fixes data iv key :: "byte list" and hexKey :: string
  assumes "hexToString hexKey = Inr key"
    and "length key = 16 \<or> length key = 24 \<or> length key = 32"
    and "length iv = 16"
  shows "\<exists>cipher. encryptAES data key (length key) iv = Inr cipher
       \<and> prepareData iv data hexKey ''client1'' =
           Inr (decimal (length cipher) @ '':'' @ stringToHex iv @ '':'' @ ''client1'' @ '':''
                @ base64Encode cipher)
       \<and> envelopeRoundTrip iv data hexKey ''client1'' = Inr (cString data)
       \<and> (0 \<notin> set data \<longrightarrow> envelopeRoundTrip iv data hexKey ''client1'' = Inr data)"
proof -
  let ?c = "concat (cbcEncrypt (roundKeys key) iv (splitBlocks (pkcsPad (cString data))))"
  have v: "validKeySize (length key)" using assms(2) by (rule validKeySize_length)
  have "encryptAES data key (length key) iv =
      Inr (concat (cbcEncrypt (roundKeys (take (length key) key)) iv
             (splitBlocks (pkcsPad (cString data)))))"
    using v _ assms(3) by (rule encryptAES_valid) simp
  then have e: "encryptAES data key (length key) iv = Inr ?c" by simp
  have p: "prepareData iv data hexKey ''client1'' =
           Inr (decimal (length ?c) @ '':'' @ stringToHex iv @ '':'' @ ''client1'' @ '':''
                @ base64Encode ?c)"
    unfolding prepareData_valid [OF assms(1) v assms(3)] client1_text
    by (simp add: DATA_DELIMITER_def)
  have r: "envelopeRoundTrip iv data hexKey ''client1'' = Inr (cString data)"
    using assms(1) v assms(3) client1_text(2) by (rule envelopeRoundTrip_cString)
  show ?thesis
    using e p r by (intro exI [of _ ?c]) (simp add: cString_no_zero)
qed

theorem envelope_round_trip_witness:
  "hexToString (replicate 32 (CHR ''0'')) = Inr (replicate 16 0)
   \<and> (length (replicate 16 (0 :: byte)) = 16 \<or> length (replicate 16 (0 :: byte)) = 24
        \<or> length (replicate 16 (0 :: byte)) = 32)
   \<and> length (replicate 16 (0 :: byte)) = 16
   \<and> 0 \<notin> set [104, 101, 108, 108, 111 :: byte]
   \<and> envelopeRoundTrip (replicate 16 0) [104, 101, 108, 108, 111] (replicate 32 (CHR ''0''))
         ''client1'' = Inr [104, 101, 108, 108, 111]"
proof -
  have k: "length (replicate 16 (0 :: byte)) = 16 \<or> length (replicate 16 (0 :: byte)) = 24
        \<or> length (replicate 16 (0 :: byte)) = 32" by simp
  have i: "length (replicate 16 (0 :: byte)) = 16" by simp
  have z: "0 \<notin> set [104, 101, 108, 108, 111 :: byte]" by simp
  show ?thesis
    using hexToString_zero_key k i z
      envelope_round_trip [OF hexToString_zero_key k i, of "[104, 101, 108, 108, 111]"]
    by blast
qed

text \<open>The three bytes \<open>a, NUL, b\<close> come back from the envelope as the single byte \<open>a\<close>.\<close>

theorem envelope_round_trip_counterexample:
  "envelopeRoundTrip (replicate 16 0) [97, 0, 98] (replicate 32 (CHR ''0'')) ''client1'' = Inr [97]
   \<and> envelopeRoundTrip (replicate 16 0) [97, 0, 98] (replicate 32 (CHR ''0'')) ''client1''
       \<noteq> Inr [97, 0, 98]"
proof -
  have "envelopeRoundTrip (replicate 16 0) [97, 0, 98] (replicate 32 (CHR ''0'')) ''client1''
        = Inr (cString [97, 0, 98])"
    using hexToString_zero_key _ _ client1_text(2)
    by (rule envelopeRoundTrip_cString) (simp_all add: validKeySize_def)
  then show ?thesis by (simp add: cString_def)
qed

end
